theory Spec2Isabelle
  imports Main "HOL-Library.Log_Nat"
begin

section \<open>Errors\<close>

text \<open>
  Every \<open>throw\<close> and every rejected promise of the server code is a value of this type.
  \<open>NotConfigured\<close> is the error of \<open>fetchSheet\<close> with the message
  "Google Sheets access not configured ...", \<open>FetchFailed status\<close> the error of
  \<open>fetchSheetViaApiKey\<close> on a response that is not ok, and \<open>Rejected msg\<close> any rejection
  that comes from a collaborator (the network, the spreadsheet API, the document store).
\<close>

datatype error = NotConfigured | FetchFailed nat | Rejected string

section \<open>JavaScript strings\<close>

text \<open>
  A string is the list of its code units; the model covers the code units below 256
  (Latin-1), which is what \<open>char\<close> holds. \<open>is_space\<close> is the white space and line
  terminators that \<open>String.prototype.trim\<close> removes in that range (TAB, LF, VT, FF, CR,
  SPACE, NBSP); \<open>toLowerCase\<close> maps A-Z and the Latin-1 capitals (U+00C0 to U+00DE without
  the multiplication sign U+00D7) to the letter 32 code points above.
\<close>

definition is_space :: "char \<Rightarrow> bool" where
  "is_space c = (of_char c \<in> {9, 10, 11, 12, 13, 32, 160 :: nat})"

definition trim :: "string \<Rightarrow> string" where
  "trim s = rev (dropWhile is_space (rev (dropWhile is_space s)))"

definition toLowerChar :: "char \<Rightarrow> char" where
  "toLowerChar c =
     (let n = of_char c :: nat
      in if (65 \<le> n \<and> n \<le> 90) \<or> (192 \<le> n \<and> n \<le> 222 \<and> n \<noteq> 215)
         then char_of (n + 32) else c)"

definition toLowerCase :: "string \<Rightarrow> string" where
  "toLowerCase s = map toLowerChar s"

text \<open>
  \<open>a || b\<close> where \<open>a\<close> is a string or \<open>undefined\<close> (\<open>None\<close>) and \<open>b\<close> a string: both
  \<open>undefined\<close> and the empty string are falsy.
\<close>

definition js_or :: "string option \<Rightarrow> string \<Rightarrow> string" where
  "js_or a b = (case a of None \<Rightarrow> b | Some s \<Rightarrow> if s = [] then b else s)"

text \<open>\<open>row[i]\<close>: \<open>undefined\<close> beyond the end of the array.\<close>

definition cell :: "string list \<Rightarrow> nat \<Rightarrow> string option" where
  "cell row i = (if i < length row then Some (row ! i) else None)"

section \<open>JavaScript numbers\<close>

text \<open>
  A Number that is not NaN: a finite binary64 value, kept as the rational it denotes, or
  an infinity. The two zeros are one value here: no function below tells them apart,
  since \<open>-0 || 0\<close> is \<open>0\<close> and \<open>(-0).toString()\<close> is \<open>"0"\<close>.
\<close>

datatype jsnum = Fin rat | PosInf | NegInf

fun negate :: "jsnum \<Rightarrow> jsnum" where
  "negate (Fin q) = Fin (- q)"
| "negate PosInf = NegInf"
| "negate NegInf = PosInf"

text \<open>The integer nearest to \<open>a / b\<close>, ties to even (\<open>0 \<le> a\<close>, \<open>0 < b\<close>).\<close>

definition div_half_even :: "int \<Rightarrow> int \<Rightarrow> int" where
  "div_half_even a b =
     (let q = a div b; r = a mod b
      in if 2 * r < b then q else if b < 2 * r then q + 1 else if even q then q else q + 1)"

text \<open>The \<open>e\<close> with \<open>2 ^ e \<le> a / b < 2 ^ (e + 1)\<close>, for positive \<open>a\<close> and \<open>b\<close>.\<close>

definition binary_exponent :: "int \<Rightarrow> int \<Rightarrow> int" where
  "binary_exponent a b =
     (let e0 = bitlen a - bitlen b
      in if (if 0 \<le> e0 then 2 ^ nat e0 * b \<le> a else b \<le> 2 ^ nat (- e0) * a)
         then e0 else e0 - 1)"

text \<open>
  The Number value for the positive rational \<open>a / b\<close>: IEEE 754 binary64,
  roundTiesToEven. The significand has 53 bits, the least exponent is \<open>-1022\<close> (below it
  the values are subnormal, multiples of \<open>2 ^ -1074\<close>), and a result of \<open>2 ^ 1024\<close> or
  more is \<open>+Infinity\<close>. \<open>round_scaled a b qe\<close> is \<open>a / b\<close> in units of \<open>2 ^ qe\<close>, rounded.
\<close>

definition round_scaled :: "int \<Rightarrow> int \<Rightarrow> int \<Rightarrow> int" where
  "round_scaled a b qe =
     (if 0 \<le> qe then div_half_even a (b * 2 ^ nat qe)
      else div_half_even (a * 2 ^ nat (- qe)) b)"

definition to_double_pos :: "int \<Rightarrow> int \<Rightarrow> jsnum" where
  "to_double_pos a b =
     (let qe = max (binary_exponent a b) (- 1022) - 52;
          m = round_scaled a b qe
      in if 971 < qe \<or> qe = 971 \<and> 2 ^ 53 \<le> m then PosInf
         else if 0 \<le> qe then Fin (of_int (m * 2 ^ nat qe))
         else Fin (of_int m / of_int (2 ^ nat (- qe))))"

definition to_double :: "int \<Rightarrow> int \<Rightarrow> jsnum" where
  "to_double a b = (if a = 0 then Fin 0 else to_double_pos a b)"

definition is_digit :: "char \<Rightarrow> bool" where
  "is_digit c = (48 \<le> (of_char c :: int) \<and> (of_char c :: int) \<le> 57)"

definition digit_val :: "char \<Rightarrow> int" where
  "digit_val c = of_char c - 48"

definition digits_val :: "string \<Rightarrow> int" where
  "digits_val ds = foldl (\<lambda>a c. 10 * a + digit_val c) 0 ds"

text \<open>
  \<open>Number(s)\<close> for a string \<open>s\<close> over the characters \<open>0-9\<close>, \<open>.\<close> and \<open>-\<close> (all that
  \<open>parseNum\<close> leaves): the empty string is \<open>0\<close>; an optional minus sign followed by
  digits, digits with a fraction (\<open>12.\<close>, \<open>12.5\<close>) or a fraction alone (\<open>.5\<close>) is that
  decimal, rounded to binary64; everything else is NaN (\<open>None\<close>).
\<close>

definition unsigned_decimal :: "string \<Rightarrow> jsnum option" where
  "unsigned_decimal u =
     (let ip = takeWhile is_digit u; rest = dropWhile is_digit u
      in case rest of
           [] \<Rightarrow> if ip = [] then None else Some (to_double (digits_val ip) 1)
         | c # fp \<Rightarrow>
             if c = CHR ''.'' \<and> list_all is_digit fp \<and> (ip \<noteq> [] \<or> fp \<noteq> [])
             then Some (to_double (digits_val (ip @ fp)) (10 ^ length fp))
             else None)"

definition Number_of :: "string \<Rightarrow> jsnum option" where
  "Number_of s =
     (case s of
        [] \<Rightarrow> Some (Fin 0)
      | c # u \<Rightarrow> if c = CHR ''-'' then map_option negate (unsigned_decimal u)
                 else unsigned_decimal s)"

text \<open>
  \<open>parseNum = (v?: string) => (v ? Number(String(v).replace(/[^0-9.-]+/g, '')) || 0 : 0)\<close>.
  The \<open>replace\<close> deletes every character outside \<open>0-9\<close>, \<open>.\<close>, \<open>-\<close>; \<open>|| 0\<close> turns NaN
  (and zero) into \<open>0\<close>.
\<close>

definition keep_numeric :: "char \<Rightarrow> bool" where
  "keep_numeric c = (is_digit c \<or> c = CHR ''.'' \<or> c = CHR ''-'')"

definition parseNum :: "string option \<Rightarrow> jsnum" where
  "parseNum v =
     (case v of
        None \<Rightarrow> Fin 0
      | Some s \<Rightarrow>
          if s = [] then Fin 0
          else (case Number_of (filter keep_numeric s) of None \<Rightarrow> Fin 0 | Some n \<Rightarrow> n))"

subsection \<open>Printing a number\<close>

text \<open>
  \<open>Number.prototype.toString\<close> in radix 10, after the ECMAScript definition
  (\<open>Number::toString\<close>). For a finite positive \<open>x\<close> it takes integers \<open>n\<close>, \<open>k\<close>, \<open>s\<close> with
  \<open>k\<close> as small as possible such that \<open>s\<close> has \<open>k\<close> decimal digits and the Number value for
  \<open>s * 10 ^ (n - k)\<close> is \<open>x\<close>; among several \<open>s\<close> the one nearest to \<open>x\<close>. It then prints
  the digits of \<open>s\<close> followed by \<open>n - k\<close> zeros when \<open>k \<le> n \<le> 21\<close>, with a decimal point
  after the first \<open>n\<close> digits when \<open>0 < n \<le> 21\<close>, after \<open>0.\<close> and \<open>-n\<close> zeros when
  \<open>-6 < n \<le> 0\<close>, and in exponent notation otherwise.
\<close>

text \<open>The number of decimal digits of a positive integer, and its digits.\<close>

function ndigits :: "int \<Rightarrow> nat" where
  "ndigits x = (if 0 < x then Suc (ndigits (x div 10)) else 0)"
  by pat_completeness auto
termination
  by (relation "measure nat") auto

function digits_from :: "int \<Rightarrow> string \<Rightarrow> string" where
  "digits_from x acc =
     (if x < 10 then char_of (48 + x) # acc
      else digits_from (x div 10) (char_of (48 + x mod 10) # acc))"
  by pat_completeness auto
termination
  by (relation "measure (\<lambda>(x, acc). nat x)") auto

definition digits_of :: "int \<Rightarrow> string" where
  "digits_of x = digits_from x []"

definition pow10 :: "int \<Rightarrow> rat" where
  "pow10 e = (if 0 \<le> e then 10 ^ nat e else 1 / 10 ^ nat (- e))"

text \<open>The \<open>n\<close> with \<open>10 ^ (n - 1) \<le> v < 10 ^ n\<close>, for positive \<open>v\<close>.\<close>

definition decimal_exponent :: "rat \<Rightarrow> int" where
  "decimal_exponent v =
     (let (p, q) = quotient_of v;
          n0 = int (ndigits p) - int (ndigits q)
      in if pow10 n0 \<le> v then n0 + 1 else n0)"

text \<open>
  \<open>s * 10 ^ (n - k)\<close> as a fraction, where \<open>k\<close> is the number of digits of \<open>s\<close>; and the
  test that its Number value is \<open>v\<close>.
\<close>

definition decimal_fraction :: "int \<Rightarrow> int \<Rightarrow> int \<times> int" where
  "decimal_fraction n s =
     (let k = int (length (digits_of s))
      in if k \<le> n then (s * 10 ^ nat (n - k), 1) else (s, 10 ^ nat (k - n)))"

definition valid_digits :: "rat \<Rightarrow> int \<Rightarrow> int \<Rightarrow> bool" where
  "valid_digits v n s =
     (0 < s \<and> (case decimal_fraction n s of (a, b) \<Rightarrow> to_double a b = Fin v))"

text \<open>
  The candidates with \<open>k\<close> digits: the two \<open>k\<close>-digit decimals around \<open>v\<close>, where the upper
  one may be the next power of ten. Of two that are valid the nearer to \<open>v\<close> is taken, and
  the even one at equal distance.
\<close>

definition pick_digits :: "rat \<Rightarrow> int \<Rightarrow> nat \<Rightarrow> (int \<times> int) option" where
  "pick_digits v nx k =
     (let s1 = \<lfloor>v * pow10 (int k - nx)\<rfloor>;
          c2 = (if s1 + 1 = 10 ^ k then (nx + 1, 10 ^ (k - 1)) else (nx, s1 + 1));
          d1 = v - of_int s1 * pow10 (nx - int k);
          d2 = of_int (s1 + 1) * pow10 (nx - int k) - v
      in if valid_digits v nx s1
         then (if valid_digits v (fst c2) (snd c2) \<and> (d2 < d1 \<or> d2 = d1 \<and> odd s1)
               then Some c2 else Some (nx, s1))
         else if valid_digits v (fst c2) (snd c2) then Some c2
         else None)"

text \<open>
  The exact decimal expansion of \<open>v\<close>: the least \<open>j\<close> with \<open>v * 10 ^ j\<close> an integer. A
  binary64 value has one with \<open>j \<le> 1074\<close>.
\<close>

fun first_exact :: "rat \<Rightarrow> nat \<Rightarrow> nat \<Rightarrow> nat" where
  "first_exact v j 0 = j"
| "first_exact v j (Suc fuel) =
     (if of_int \<lfloor>v * 10 ^ j\<rfloor> = v * 10 ^ j then j else first_exact v (Suc j) fuel)"

definition exact_digits :: "rat \<Rightarrow> int \<times> int" where
  "exact_digits v =
     (let j = first_exact v 0 1074; P = \<lfloor>v * 10 ^ j\<rfloor>
      in (int (ndigits P) - int j, P))"

text \<open>
  The search for the least \<open>k\<close>, from \<open>k = 1\<close>. Seventeen digits tell any two binary64
  values apart, so the search stops there; the exact expansion stands behind it.
\<close>

fun search_digits :: "rat \<Rightarrow> int \<Rightarrow> nat \<Rightarrow> nat \<Rightarrow> int \<times> int" where
  "search_digits v nx k 0 = exact_digits v"
| "search_digits v nx k (Suc fuel) =
     (case pick_digits v nx k of
        Some c \<Rightarrow> c
      | None \<Rightarrow> search_digits v nx (Suc k) fuel)"

definition shortest_digits :: "rat \<Rightarrow> int \<times> int" where
  "shortest_digits v = search_digits v (decimal_exponent v) 1 17"

definition format_digits :: "int \<Rightarrow> int \<Rightarrow> string" where
  "format_digits n s =
     (let ds = digits_of s; k = int (length ds)
      in if k \<le> n \<and> n \<le> 21 then ds @ replicate (nat (n - k)) CHR ''0''
         else if 0 < n \<and> n \<le> 21 then take (nat n) ds @ ''.'' @ drop (nat n) ds
         else if - 6 < n \<and> n \<le> 0 then ''0.'' @ replicate (nat (- n)) CHR ''0'' @ ds
         else (let e = n - 1;
                   es = (if e < 0 then ''-'' else ''+'') @ digits_of \<bar>e\<bar>
               in if k = 1 then ds @ ''e'' @ es
                  else [hd ds] @ ''.'' @ tl ds @ ''e'' @ es))"

definition positive_toString :: "rat \<Rightarrow> string" where
  "positive_toString v = (case shortest_digits v of (n, s) \<Rightarrow> format_digits n s)"

definition Number_toString :: "jsnum \<Rightarrow> string" where
  "Number_toString d =
     (case d of
        PosInf \<Rightarrow> ''Infinity''
      | NegInf \<Rightarrow> ''-Infinity''
      | Fin v \<Rightarrow> if v = 0 then ''0''
                 else if v < 0 then ''-'' @ positive_toString (- v)
                 else positive_toString v)"

text \<open>A number that \<open>toString\<close> prints without an exponent: zero, or finite with \<open>-6 < n \<le> 21\<close>.\<close>

definition decimal_notation :: "jsnum \<Rightarrow> bool" where
  "decimal_notation d =
     (case d of
        Fin v \<Rightarrow> v = 0 \<or> (case shortest_digits \<bar>v\<bar> of (n, s) \<Rightarrow> - 6 < n \<and> n \<le> 21)
      | _ \<Rightarrow> False)"

text \<open>
  The positive binary64 values: a significand below \<open>2 ^ 53\<close> times a power of two from
  \<open>2 ^ -1074\<close> to \<open>2 ^ 971\<close>, the significand at least \<open>2 ^ 52\<close> unless the power is the least.
\<close>

definition is_binary64 :: "rat \<Rightarrow> bool" where
  "is_binary64 v =
     (\<exists>m qe. v = of_int m * 2 powi qe \<and> 0 < m \<and> m < 2 ^ 53 \<and> - 1074 \<le> qe \<and> qe \<le> 971
             \<and> (m < 2 ^ 52 \<longrightarrow> qe = - 1074))"

section \<open>Fetching one tab (sheetsService)\<close>

text \<open>
  The body of a Sheets API answer, as far as the code reads it: the optional \<open>values\<close>,
  an array of rows of cell text.
\<close>

record response =
  sheet_values :: "string list list option"

text \<open>The three environment variables of \<open>process.env\<close> that the service reads.\<close>

record env =
  GOOGLE_SERVICE_ACCOUNT_EMAIL :: "string option"
  GOOGLE_SERVICE_ACCOUNT_PRIVATE_KEY :: "string option"
  GOOGLE_SHEETS_API_KEY :: "string option"

text \<open>
  What the outside answers. \<open>jwt_authorize email key\<close> tells whether building the JWT
  client and \<open>jwt.authorize()\<close> go through. \<open>values_get auth spreadsheetId range\<close> is
  \<open>sheets.spreadsheets.values.get\<close>: a rejection with its message, or \<open>res.data.values\<close>.
  \<open>http_get spreadsheetId range key\<close> is the \<open>fetch\<close> of the key-based URL, which those
  three strings determine: a rejection, or a response with \<open>ok\<close>, \<open>status\<close> and the
  outcome of \<open>res.json()\<close>.
\<close>

datatype http_result =
    Fetch_rejected string
  | Http_response bool nat "string + response"

record collab =
  jwt_authorize :: "string \<Rightarrow> string \<Rightarrow> bool"
  values_get :: "string \<times> string \<Rightarrow> string \<Rightarrow> string \<Rightarrow> string + string list list option"
  http_get :: "string \<Rightarrow> string \<Rightarrow> string \<Rightarrow> http_result"

text \<open>\<open>privateKey.replace(/\\n/g, '\n')\<close>: every backslash followed by \<open>n\<close> becomes a line feed.\<close>

fun unescape_newlines :: "string \<Rightarrow> string" where
  "unescape_newlines [] = []"
| "unescape_newlines [c] = [c]"
| "unescape_newlines (c # d # cs) =
     (if c = CHR 0x5C \<and> d = CHR ''n'' then CHR 0x0A # unescape_newlines cs
      else c # unescape_newlines (d # cs))"

text \<open>The JWT client, represented by its email and key, or \<open>null\<close>.\<close>

definition getServiceAccountClient :: "env \<Rightarrow> collab \<Rightarrow> (string \<times> string) option" where
  "getServiceAccountClient ev co =
     (case (GOOGLE_SERVICE_ACCOUNT_EMAIL ev, GOOGLE_SERVICE_ACCOUNT_PRIVATE_KEY ev) of
        (Some clientEmail, Some privateKey) \<Rightarrow>
          if clientEmail = [] \<or> privateKey = [] then None
          else (let k = unescape_newlines privateKey
                in if jwt_authorize co clientEmail k then Some (clientEmail, k) else None)
      | _ \<Rightarrow> None)"

definition fetchSheetViaServiceAccount ::
    "env \<Rightarrow> collab \<Rightarrow> string \<Rightarrow> string \<Rightarrow> error + response option" where
  "fetchSheetViaServiceAccount ev co sid rng =
     (case getServiceAccountClient ev co of
        None \<Rightarrow> Inr None
      | Some auth \<Rightarrow>
          (case values_get co auth sid rng of
             Inl msg \<Rightarrow> Inl (Rejected msg)
           | Inr vs \<Rightarrow>
               Inr (Some \<lparr>sheet_values = Some (case vs of None \<Rightarrow> [] | Some v \<Rightarrow> v)\<rparr>)))"

definition fetchSheetViaApiKey :: "collab \<Rightarrow> string \<Rightarrow> string \<Rightarrow> string \<Rightarrow> error + response" where
  "fetchSheetViaApiKey co sid rng k =
     (case http_get co sid rng k of
        Fetch_rejected msg \<Rightarrow> Inl (Rejected msg)
      | Http_response ok status body \<Rightarrow>
          if \<not> ok then Inl (FetchFailed status)
          else (case body of Inl msg \<Rightarrow> Inl (Rejected msg) | Inr r \<Rightarrow> Inr r))"

definition fetchSheet ::
    "env \<Rightarrow> collab \<Rightarrow> string \<Rightarrow> string \<Rightarrow> string option \<Rightarrow> error + response" where
  "fetchSheet ev co sid rng apiKey =
     (let sa = (case fetchSheetViaServiceAccount ev co sid rng of
                  Inl _ \<Rightarrow> None | Inr r \<Rightarrow> r)
      in case (case sa of None \<Rightarrow> None
                        | Some r \<Rightarrow> (case sheet_values r of None \<Rightarrow> None | Some _ \<Rightarrow> Some r)) of
           Some r \<Rightarrow> Inr r
         | None \<Rightarrow>
             (let k = js_or apiKey (js_or (GOOGLE_SHEETS_API_KEY ev) [])
              in if k = [] then Inl NotConfigured
                 else fetchSheetViaApiKey co sid rng k))"

section \<open>Mapping rows to records\<close>

text \<open>
  The records are object literals: the fields in the order written, each a string, a
  number or (for \<open>skills\<close>) a list of strings.
\<close>

datatype jsval = Str string | Num jsnum | Arr "string list"

type_synonym obj = "(string \<times> jsval) list"

text \<open>
  \<open>header.forEach((h, i) => (byName[h] = row[i] !== undefined ? String(row[i]) : ''))\<close>:
  a later column of the same name overwrites an earlier one.
\<close>

definition byName :: "string list \<Rightarrow> string list \<Rightarrow> (string \<rightharpoonup> string)" where
  "byName header row =
     fold (\<lambda>(i, h) m. m(h \<mapsto> (case cell row i of None \<Rightarrow> [] | Some v \<Rightarrow> v)))
          (enumerate 0 header) Map.empty"

text \<open>
  What the four \<open>parse...\<close> functions share: no \<open>values\<close> or fewer than two rows give no
  record; otherwise the first row, trimmed and lower-cased, is the header and every
  further row is mapped.
\<close>

definition lower_header :: "string list \<Rightarrow> string list" where
  "lower_header hs = map (\<lambda>h. toLowerCase (trim h)) hs"

definition map_rows :: "(string list \<Rightarrow> string list \<Rightarrow> obj) \<Rightarrow> response \<Rightarrow> obj list" where
  "map_rows f r =
     (case sheet_values r of
        None \<Rightarrow> []
      | Some vs \<Rightarrow>
          if length vs < 2 then []
          else map (f (lower_header (hd vs))) (tl vs))"

definition recruiter_row :: "string list \<Rightarrow> string list \<Rightarrow> obj" where
  "recruiter_row header row =
     (let b = byName header row in
      [(''name'', Str (js_or (b ''name'') (js_or (b ''full name'') (js_or (b ''recruiter'')
                    (js_or (cell row 0) []))))),
       (''email'', Str (js_or (b ''email'') (js_or (b ''email id'') (js_or (cell row 1) [])))),
       (''phone'', Str (js_or (b ''phone'') (js_or (b ''contact number'') (js_or (cell row 2) [])))),
       (''department'', Str (js_or (b ''department'') (js_or (cell row 3) []))),
       (''territory'', Str (js_or (b ''territory'') (js_or (b ''locations'') (js_or (cell row 4) [])))),
       (''hired'', Num (parseNum (Some (js_or (b ''hired'') (js_or (b ''total hired'')
                    (js_or (b ''hires'') (js_or (cell row 5) ''0''))))))),
       (''joinDate'', Str (js_or (b ''joindate'') (js_or (b ''join date'') (js_or (b ''start date'')
                    (js_or (b ''doj'') (js_or (cell row 6) [])))))),
       (''reportingManager'', Str (js_or (b ''reporting manager'') (js_or (b ''reportingmanager'') []))),
       (''remarks'', Str (js_or (b ''remarks'') [])),
       (''backendCallingsRemarks'', Str (js_or (b ''backend callings remarks'')
                    (js_or (b ''backendcallingsremarks'') []))),
       (''recruiterBackendCallings'', Str (js_or (b ''recruiter backend callings'')
                    (js_or (b ''recruiterbackendcallings'') []))),
       (''status'', Str (js_or (b ''status'') (js_or (cell row 7) ''active''))),
       (''trend'', Str (js_or (b ''trend'') (js_or (cell row 8) ''up''))),
       (''location'', Str (js_or (b ''location'') (js_or (cell row 9) [])))])"

definition parseRecruiters :: "response \<Rightarrow> obj list" where
  "parseRecruiters r = map_rows recruiter_row r"

text \<open>\<open>s.split(/[,;|]/)\<close>: the pieces between separators, empty ones included.\<close>

fun split_on :: "(char \<Rightarrow> bool) \<Rightarrow> string \<Rightarrow> string list" where
  "split_on p [] = [[]]"
| "split_on p (c # cs) =
     (if p c then [] # split_on p cs
      else (case split_on p cs of [] \<Rightarrow> [[c]] | x # xs \<Rightarrow> (c # x) # xs))"

definition split_skills :: "string \<Rightarrow> string list" where
  "split_skills s =
     filter (\<lambda>t. t \<noteq> [])
       (map trim (split_on (\<lambda>c. c = CHR '','' \<or> c = CHR '';'' \<or> c = CHR ''|'') s))"

definition candidate_row :: "string list \<Rightarrow> string list \<Rightarrow> obj" where
  "candidate_row header row =
     (let b = byName header row in
      [(''name'', Str (js_or (b ''name'') (js_or (cell row 0) []))),
       (''email'', Str (js_or (b ''email'') (js_or (b ''email id'') (js_or (cell row 1) [])))),
       (''phone'', Str (js_or (b ''phone'') (js_or (b ''contact number'') (js_or (cell row 2) [])))),
       (''position'', Str (js_or (b ''position'') (js_or (b ''role'') (js_or (cell row 3) [])))),
       (''experience'', Str (js_or (b ''experience'') (js_or (cell row 4) []))),
       (''skills'', Arr (split_skills (js_or (b ''skills'') (js_or (cell row 5) [])))),
       (''status'', Str (js_or (b ''status'') (js_or (cell row 6) ''pending''))),
       (''salary'', Num (parseNum (Some (js_or (b ''salary'') (js_or (b ''salary details'')
                    (js_or (cell row 7) ''0'')))))),
       (''recruiter'', Str (js_or (b ''recruiter'') (js_or (cell row 8) []))),
       (''reportingManager'', Str (js_or (b ''reporting manager'') [])),
       (''client'', Str (js_or (b ''client'') (js_or (cell row 9) []))),
       (''appliedDate'', Str (js_or (b ''applieddate'') (js_or (b ''applied date'') (js_or (b ''doj'')
                    (js_or (cell row 10) []))))),
       (''doj'', Str (js_or (b ''doj'') [])),
       (''salaryDetails'', Str (js_or (b ''salary details'') [])),
       (''location'', Str (js_or (b ''location'') (js_or (cell row 11) []))),
       (''remarks'', Str (js_or (b ''remarks'') [])),
       (''backendCallingsRemarks'', Str (js_or (b ''backend callings remarks'') []))])"

definition parseCandidates :: "response \<Rightarrow> obj list" where
  "parseCandidates r = map_rows candidate_row r"

definition client_row :: "string list \<Rightarrow> string list \<Rightarrow> obj" where
  "client_row header row =
     (let b = byName header row in
      [(''name'', Str (js_or (b ''name'') (js_or (cell row 0) []))),
       (''company'', Str (js_or (b ''company'') (js_or (cell row 1) []))),
       (''email'', Str (js_or (b ''email'') (js_or (b ''email id'') (js_or (cell row 2) [])))),
       (''phone'', Str (js_or (b ''phone'') (js_or (b ''contact number'') (js_or (cell row 3) [])))),
       (''industry'', Str (js_or (b ''industry'') (js_or (cell row 4) []))),
       (''totalHired'', Num (parseNum (Some (js_or (b ''total hired'') (js_or (b ''totalhired'')
                    (js_or (b ''hires'') (js_or (cell row 5) ''0'')))))))  ,
       (''avgDaysToFill'', Num (parseNum (Some (js_or (b ''avg daystofill'') (js_or (b ''avgdays'')
                    (js_or (cell row 6) ''0'')))))),
       (''status'', Str (js_or (b ''status'') (js_or (cell row 7) ''active''))),
       (''location'', Str (js_or (b ''location'') (js_or (b ''locations'') (js_or (cell row 8) [])))),
       (''contactNumber'', Str (js_or (b ''contact number'') [])),
       (''lastActivity'', Str (js_or (b ''lastactivity'') (js_or (b ''last activity'')
                    (js_or (cell row 9) [])))),
       (''remarks'', Str (js_or (b ''remarks'') [])),
       (''backendCallingsRemarks'', Str (js_or (b ''backend callings remarks'') []))])"

definition parseClients :: "response \<Rightarrow> obj list" where
  "parseClients r = map_rows client_row r"

definition performance_row :: "string list \<Rightarrow> string list \<Rightarrow> obj" where
  "performance_row header row =
     (let b = byName header row in
      [(''month'', Str (js_or (b ''month'') (js_or (b ''date'') (js_or (cell row 0) [])))),
       (''recruiters'', Num (parseNum (Some (js_or (b ''recruiters'') (js_or (cell row 1) ''0''))))),
       (''hired'', Num (parseNum (Some (js_or (b ''hired'') (js_or (cell row 2) ''0''))))),
       (''target'', Num (parseNum (Some (js_or (b ''target'') (js_or (cell row 3) ''0'')))))])"

definition parsePerformance :: "response \<Rightarrow> obj list" where
  "parsePerformance r = map_rows performance_row r"

section \<open>Inferring the kind of a tab\<close>

datatype kind = Recruiters | Candidates | Clients | Performance

text \<open>The four keyword arrays of \<open>inferType\<close>, in the order it tests them.\<close>

definition candidate_keys :: "string list" where
  "candidate_keys =
     [''position'', ''role'', ''applieddate'', ''applied date'', ''salary'', ''doj'', ''client'']"

definition client_keys :: "string list" where
  "client_keys = [''company'', ''industry'', ''total hired'', ''avgdaystofill'', ''last activity'']"

definition recruiter_keys :: "string list" where
  "recruiter_keys = [''hired'', ''territory'', ''trend'', ''join date'', ''joindate'', ''department'']"

definition performance_keys :: "string list" where
  "performance_keys = [''month'', ''target'', ''hired'']"

text \<open>\<open>has = (keys) => keys.some((k) => header.includes(k))\<close>\<close>

definition has :: "string list \<Rightarrow> string list \<Rightarrow> bool" where
  "has header keys = list_ex (\<lambda>k. k \<in> set header) keys"

text \<open>The decision of \<open>inferType\<close> on a header that is already trimmed and lower-cased.\<close>

definition infer_header :: "string list \<Rightarrow> kind option" where
  "infer_header header =
     (if has header candidate_keys then Some Candidates
      else if has header client_keys then Some Clients
      else if has header recruiter_keys then Some Recruiters
      else if has header performance_keys then Some Performance
      else None)"

definition inferType :: "response option \<Rightarrow> kind option" where
  "inferType resp =
     (case resp of
        None \<Rightarrow> None
      | Some r \<Rightarrow>
          (case sheet_values r of
             None \<Rightarrow> None
           | Some [] \<Rightarrow> None
           | Some (h # _) \<Rightarrow> infer_header (lower_header h)))"

section \<open>The import (importSheetsAndSave)\<close>

record config =
  spreadsheetId :: string
  apiKey :: "string option"
  ranges :: "kind \<Rightarrow> string"

text \<open>The four variables \<open>recruiters\<close>, \<open>candidates\<close>, \<open>clients\<close>, \<open>performance\<close>; also the value returned.\<close>

record import_result =
  recruiters :: "obj list"
  candidates :: "obj list"
  clients :: "obj list"
  performance :: "obj list"

definition field_of :: "kind \<Rightarrow> import_result \<Rightarrow> obj list" where
  "field_of k res =
     (case k of Recruiters \<Rightarrow> recruiters res | Candidates \<Rightarrow> candidates res
              | Clients \<Rightarrow> clients res | Performance \<Rightarrow> performance res)"

text \<open>
  \<open>Promise.allSettled\<close>, then \<open>r.status === 'fulfilled' ? r.value : null\<close>: a rejected fetch
  is \<open>null\<close>, and its error goes no further.
\<close>

definition settled :: "error + response \<Rightarrow> response option" where
  "settled r = (case r of Inl _ \<Rightarrow> None | Inr v \<Rightarrow> Some v)"

text \<open>
  The four blocks \<open>if (rRes) {...}\<close>, \<open>if (cRes) {...}\<close>, \<open>if (clientsRes) {...}\<close>,
  \<open>if (perfRes) {...}\<close>, each with its tests in the order of the source. With rows of cell
  text nothing in them throws, so the \<open>catch\<close> that follows them in the source is never
  entered.
\<close>

definition route_rRes :: "response option \<Rightarrow> import_result \<Rightarrow> import_result" where
  "route_rRes rRes acc =
     (case rRes of
        None \<Rightarrow> acc
      | Some r \<Rightarrow>
          (let rType = inferType rRes
           in if rType = Some Candidates then acc\<lparr>candidates := parseCandidates r\<rparr>
              else if rType = Some Clients then acc\<lparr>clients := parseClients r\<rparr>
              else if rType = Some Performance then acc\<lparr>performance := parsePerformance r\<rparr>
              else acc\<lparr>recruiters := parseRecruiters r\<rparr>))"

definition route_cRes :: "response option \<Rightarrow> import_result \<Rightarrow> import_result" where
  "route_cRes cRes acc =
     (case cRes of
        None \<Rightarrow> acc
      | Some r \<Rightarrow>
          (let cType = inferType cRes
           in if cType = Some Recruiters then acc\<lparr>recruiters := parseRecruiters r\<rparr>
              else if cType = Some Clients then acc\<lparr>clients := parseClients r\<rparr>
              else if cType = Some Performance then acc\<lparr>performance := parsePerformance r\<rparr>
              else acc\<lparr>candidates := parseCandidates r\<rparr>))"

definition route_clientsRes :: "response option \<Rightarrow> import_result \<Rightarrow> import_result" where
  "route_clientsRes clientsRes acc =
     (case clientsRes of
        None \<Rightarrow> acc
      | Some r \<Rightarrow>
          (let clType = inferType clientsRes
           in if clType = Some Recruiters then acc\<lparr>recruiters := parseRecruiters r\<rparr>
              else if clType = Some Candidates then acc\<lparr>candidates := parseCandidates r\<rparr>
              else if clType = Some Performance then acc\<lparr>performance := parsePerformance r\<rparr>
              else acc\<lparr>clients := parseClients r\<rparr>))"

definition route_perfRes :: "response option \<Rightarrow> import_result \<Rightarrow> import_result" where
  "route_perfRes perfRes acc =
     (case perfRes of
        None \<Rightarrow> acc
      | Some r \<Rightarrow>
          (let pType = inferType perfRes
           in if pType = Some Recruiters then acc\<lparr>recruiters := parseRecruiters r\<rparr>
              else if pType = Some Clients then acc\<lparr>clients := parseClients r\<rparr>
              else if pType = Some Candidates then acc\<lparr>candidates := parseCandidates r\<rparr>
              else acc\<lparr>performance := parsePerformance r\<rparr>))"

definition parse_tabs ::
    "response option \<Rightarrow> response option \<Rightarrow> response option \<Rightarrow> response option \<Rightarrow> import_result" where
  "parse_tabs rRes cRes clientsRes perfRes =
     route_perfRes perfRes (route_clientsRes clientsRes (route_cRes cRes (route_rRes rRes
       \<lparr>recruiters = [], candidates = [], clients = [], performance = []\<rparr>)))"

subsection \<open>The document store\<close>

text \<open>
  The four collections, by kind. \<open>deleteMany({})\<close> empties a collection and \<open>insertMany\<close>
  adds the documents it is given; either may reject instead, and then it changes nothing.
\<close>

type_synonym store = "kind \<Rightarrow> obj list"

datatype db_op = DeleteMany kind | InsertMany kind "obj list"

fun apply_op :: "db_op \<Rightarrow> store \<Rightarrow> store" where
  "apply_op (DeleteMany k) st = st(k := [])"
| "apply_op (InsertMany k docs) st = st(k := st k @ docs)"

text \<open>
  The awaited store calls of one \<open>try\<close> block, in order. \<open>ok i\<close> tells whether the \<open>i\<close>-th
  call made goes through; the first one that rejects ends the block, and the second
  component of the result tells that the \<open>catch\<close> was entered.
\<close>

fun exec_ops :: "(nat \<Rightarrow> bool) \<Rightarrow> nat \<Rightarrow> db_op list \<Rightarrow> store \<Rightarrow> store \<times> bool" where
  "exec_ops ok i [] st = (st, False)"
| "exec_ops ok i (x # xs) st =
     (if ok i then exec_ops ok (Suc i) xs (apply_op x st) else (st, True))"

text \<open>\<open>if (docs.length) await Model.insertMany(...)\<close>\<close>

definition insert_if_any :: "kind \<Rightarrow> obj list \<Rightarrow> db_op list" where
  "insert_if_any k docs = (if docs \<noteq> [] then [InsertMany k docs] else [])"

definition persist_ops :: "import_result \<Rightarrow> db_op list" where
  "persist_ops res =
     [DeleteMany Recruiters, DeleteMany Candidates, DeleteMany Clients, DeleteMany Performance]
     @ insert_if_any Recruiters (recruiters res)
     @ insert_if_any Candidates (candidates res)
     @ insert_if_any Clients (clients res)
     @ insert_if_any Performance (performance res)"

definition persist :: "(nat \<Rightarrow> bool) \<Rightarrow> import_result \<Rightarrow> store \<Rightarrow> store \<times> bool" where
  "persist ok res st = exec_ops ok 0 (persist_ops res) st"

text \<open>
  What one call does: the value it returns, the store it leaves, and whether it logged
  "DB write failed". It has no way to reject.
\<close>

record import_run =
  returned :: import_result
  store_after :: store
  db_write_failed :: bool

definition importSheetsAndSave ::
    "env \<Rightarrow> collab \<Rightarrow> (nat \<Rightarrow> bool) \<Rightarrow> config \<Rightarrow> store \<Rightarrow> import_run" where
  "importSheetsAndSave ev co ok cfg st =
     (let rRes = settled (fetchSheet ev co (spreadsheetId cfg) (ranges cfg Recruiters) (apiKey cfg));
          cRes = settled (fetchSheet ev co (spreadsheetId cfg) (ranges cfg Candidates) (apiKey cfg));
          clientsRes = settled (fetchSheet ev co (spreadsheetId cfg) (ranges cfg Clients) (apiKey cfg));
          perfRes = settled (fetchSheet ev co (spreadsheetId cfg) (ranges cfg Performance) (apiKey cfg));
          res = parse_tabs rRes cRes clientsRes perfRes;
          (st', failed) = persist ok res st
      in \<lparr>returned = res, store_after = st', db_write_failed = failed\<rparr>)"

subsection \<open>Where the rows of a tab go\<close>

text \<open>
  A description of the routing to compare \<open>parse_tabs\<close> with. The rows of a fetched
  tab go to the kind inferred from its header, and to the kind the tab was requested for
  when nothing is inferred; a kind receives the rows of the last tab, in the order
  recruiters, candidates, clients, performance, that goes to it, parsed as that kind, and
  is empty when no tab does.
\<close>

definition target :: "kind \<Rightarrow> response option \<Rightarrow> kind" where
  "target nominal resp = (case inferType resp of None \<Rightarrow> nominal | Some k \<Rightarrow> k)"

definition parse_as :: "kind \<Rightarrow> response \<Rightarrow> obj list" where
  "parse_as k r =
     (case k of Recruiters \<Rightarrow> parseRecruiters r | Candidates \<Rightarrow> parseCandidates r
              | Clients \<Rightarrow> parseClients r | Performance \<Rightarrow> parsePerformance r)"

definition last_routed :: "kind \<Rightarrow> (kind \<times> response option) list \<Rightarrow> obj list" where
  "last_routed k tabs =
     (let routed = filter (\<lambda>(nominal, resp). resp \<noteq> None \<and> target nominal resp = k) tabs
      in if routed = [] then []
         else (case snd (last routed) of None \<Rightarrow> [] | Some r \<Rightarrow> parse_as k r))"

text \<open>One block of the routing, written with \<open>target\<close>; the four blocks are shown equal to it.\<close>

definition set_field :: "kind \<Rightarrow> obj list \<Rightarrow> import_result \<Rightarrow> import_result" where
  "set_field k v acc =
     (case k of Recruiters \<Rightarrow> acc\<lparr>recruiters := v\<rparr> | Candidates \<Rightarrow> acc\<lparr>candidates := v\<rparr>
              | Clients \<Rightarrow> acc\<lparr>clients := v\<rparr> | Performance \<Rightarrow> acc\<lparr>performance := v\<rparr>)"

definition route :: "kind \<Rightarrow> response option \<Rightarrow> import_result \<Rightarrow> import_result" where
  "route nominal resp acc =
     (case resp of None \<Rightarrow> acc
                 | Some r \<Rightarrow> set_field (target nominal resp) (parse_as (target nominal resp) r) acc)"

section \<open>The CSV parser (parseCsvToObjects)\<close>

text \<open>
  The first loop cuts the text into lines. The arguments are the text still to read, \<open>cur\<close>
  and \<open>inQuotes\<close>; the result is \<open>lines\<close>, with the last \<open>cur\<close> pushed when it is not empty.
  A quote followed by a quote is one step of the loop (\<open>i++\<close>).
\<close>

fun csv_lines :: "string \<Rightarrow> string \<Rightarrow> bool \<Rightarrow> string list" where
  "csv_lines [] cur inQuotes = (if cur \<noteq> [] then [cur] else [])"
| "csv_lines (ch # rest) cur inQuotes =
     (if ch = CHR 0x22 then
        (case rest of
           [] \<Rightarrow> csv_lines rest (cur @ [ch]) (\<not> inQuotes)
         | d # rest' \<Rightarrow>
             if d = CHR 0x22 then csv_lines rest' (cur @ [CHR 0x22]) inQuotes
             else csv_lines rest (cur @ [ch]) (\<not> inQuotes))
      else if ch = CHR 0x0D then csv_lines rest cur inQuotes
      else if ch = CHR 0x0A \<and> \<not> inQuotes then cur # csv_lines rest [] inQuotes
      else csv_lines rest (cur @ [ch]) inQuotes)"

text \<open>The loop of \<open>splitCsv\<close>: the line still to read, \<open>field\<close> and \<open>inside\<close>; the result is \<open>cols\<close>.\<close>

fun split_fields :: "string \<Rightarrow> string \<Rightarrow> bool \<Rightarrow> string list" where
  "split_fields [] field inside = [field]"
| "split_fields (c # rest) field inside =
     (if c = CHR 0x22 then
        (case rest of
           [] \<Rightarrow> split_fields rest field (\<not> inside)
         | d # rest' \<Rightarrow>
             if inside \<and> d = CHR 0x22 then split_fields rest' (field @ [CHR 0x22]) inside
             else split_fields rest field (\<not> inside))
      else if c = CHR '','' \<and> \<not> inside then field # split_fields rest [] inside
      else split_fields rest (field @ [c]) inside)"

text \<open>\<open>s.replace(/^"|"$/g, '')\<close>: a quote at the start goes, and a quote at the end of what is left.\<close>

definition strip_quotes :: "string \<Rightarrow> string" where
  "strip_quotes s =
     (let s1 = (case s of [] \<Rightarrow> [] | c # cs \<Rightarrow> if c = CHR 0x22 then cs else s)
      in if s1 \<noteq> [] \<and> last s1 = CHR 0x22 then butlast s1 else s1)"

definition splitCsv :: "string \<Rightarrow> string list" where
  "splitCsv line = map (\<lambda>s. trim (strip_quotes s)) (split_fields line [] False)"

text \<open>
  A row is a plain object (\<open>{}\<close>) with string values, kept as the list of its own
  properties in the order in which \<open>Object.keys\<close> lists them: first the keys that are array
  indices, by ascending value, then every other key in the order of creation.

  An array index is the decimal text, without leading zeros, of an integer from \<open>0\<close> to
  \<open>2 ^ 32 - 2\<close>.
\<close>

type_synonym row = "(string \<times> string) list"

definition is_array_index :: "string \<Rightarrow> bool" where
  "is_array_index k =
     (k \<noteq> [] \<and> list_all is_digit k \<and> (k = ''0'' \<or> hd k \<noteq> CHR ''0'')
      \<and> digits_val k < 4294967295)"

text \<open>A new array index goes before the first key that is not a smaller array index.\<close>

fun obj_insert_index :: "row \<Rightarrow> string \<Rightarrow> string \<Rightarrow> row" where
  "obj_insert_index [] k v = [(k, v)]"
| "obj_insert_index ((k', v') # kvs) k v =
     (if is_array_index k' \<and> digits_val k' < digits_val k
      then (k', v') # obj_insert_index kvs k v
      else (k, v) # (k', v') # kvs)"

text \<open>
  \<open>row[k] = v\<close> for a string \<open>v\<close>. The key \<open>__proto__\<close> is the accessor inherited from
  \<open>Object.prototype\<close>, whose setter ignores a value that is neither an object nor \<open>null\<close>:
  nothing is stored. Every other inherited property is a writable data property, so the
  assignment makes an own property. A key that is there keeps its place.
\<close>

definition obj_set :: "row \<Rightarrow> string \<Rightarrow> string \<Rightarrow> row" where
  "obj_set r k v =
     (if k = ''__proto__'' then r
      else if k \<in> fst ` set r then map (\<lambda>(k', v'). if k' = k then (k', v) else (k', v')) r
      else if is_array_index k then obj_insert_index r k v
      else r @ [(k, v)])"

text \<open>\<open>for (j ...) row[header[j]] = cols[j] !== undefined ? cols[j] : ''\<close>\<close>

definition row_of :: "string list \<Rightarrow> string list \<Rightarrow> row" where
  "row_of header cols =
     foldl (\<lambda>r (j, h). obj_set r h (case cell cols j of None \<Rightarrow> [] | Some v \<Rightarrow> v))
           [] (enumerate 0 header)"

definition parseCsvToObjects :: "string \<Rightarrow> row list" where
  "parseCsvToObjects csv =
     (case csv_lines csv [] False of
        [] \<Rightarrow> []
      | l0 # ls \<Rightarrow>
          (let header = map trim (splitCsv l0)
           in map (\<lambda>l. row_of header (splitCsv l)) (filter (\<lambda>l. trim l \<noteq> []) ls)))"

subsection \<open>Writing CSV\<close>

text \<open>
  The repository has no CSV writer. This one follows RFC 4180, which the specification
  names: a field that contains a comma, a double quote, CR or LF is enclosed in double
  quotes with every double quote inside it doubled; fields are separated by commas and
  each record ends with CRLF.
\<close>

definition needs_quoting :: "string \<Rightarrow> bool" where
  "needs_quoting v = (\<exists>c\<in>set v. c = CHR '','' \<or> c = CHR 0x22 \<or> c = CHR 0x0D \<or> c = CHR 0x0A)"

definition double_quotes :: "string \<Rightarrow> string" where
  "double_quotes v = concat (map (\<lambda>c. if c = CHR 0x22 then [c, c] else [c]) v)"

definition csv_field :: "string \<Rightarrow> string" where
  "csv_field v = (if needs_quoting v then [CHR 0x22] @ double_quotes v @ [CHR 0x22] else v)"

fun csv_record :: "string list \<Rightarrow> string" where
  "csv_record [] = []"
| "csv_record [v] = csv_field v"
| "csv_record (v # w # vs) = csv_field v @ [CHR '',''] @ csv_record (w # vs)"

definition serializeAsCsv :: "string list \<Rightarrow> string list \<Rightarrow> string" where
  "serializeAsCsv H R = csv_record H @ [CHR 0x0D, CHR 0x0A] @ csv_record R @ [CHR 0x0D, CHR 0x0A]"

text \<open>
  The field values that the parser hands back unchanged: no double quote, no carriage
  return, and no white space at either end.
\<close>

definition plain :: "string \<Rightarrow> bool" where
  "plain v = (CHR 0x22 \<notin> set v \<and> CHR 0x0D \<notin> set v \<and> trim v = v)"

section \<open>The scheduler (configService)\<close>

type_synonym key = string

text \<open>The fields of a stored \<open>SheetsConfig\<close> document that the scheduler touches.\<close>

record sheets_config =
  autoRefresh :: bool
  lastRunAt :: "int option"

datatype event =
    Warn_rate_limit key nat
  | Call_import key
  | Log_refreshed key
  | Error_failed key error

text \<open>
  The module state (\<open>intervals\<close>, \<open>runHistory\<close>), the \<open>SheetsConfig\<close> collection, and a
  trace of what a run does to the outside: its console output and its calls of
  \<open>importSheetsAndSave\<close>. A timer is represented by its period in milliseconds;
  timestamps are the integer milliseconds of \<open>Date.now()\<close>.
\<close>

record state =
  intervals :: "key \<rightharpoonup> nat"
  runHistory :: "key \<rightharpoonup> int list"
  configs :: "key \<rightharpoonup> sheets_config"
  trace :: "event list"

definition MAX_IMPORTS_PER_MINUTE :: nat where
  "MAX_IMPORTS_PER_MINUTE = 20"

text \<open>
  \<open>SheetsConfig.findOneAndUpdate({spreadsheetId: key}, {lastRunAt: t})\<close>: without \<open>upsert\<close>,
  a missing document stays missing.
\<close>

definition set_lastRunAt :: "key \<Rightarrow> int \<Rightarrow> (key \<rightharpoonup> sheets_config) \<Rightarrow> (key \<rightharpoonup> sheets_config)" where
  "set_lastRunAt k t cs =
     (case cs k of None \<Rightarrow> cs | Some c \<Rightarrow> cs(k \<mapsto> c\<lparr>lastRunAt := Some t\<rparr>))"

text \<open>\<open>runHistory.get(key) || []\<close>\<close>

definition hist_of :: "state \<Rightarrow> key \<Rightarrow> int list" where
  "hist_of st k = (case runHistory st k of None \<Rightarrow> [] | Some h \<Rightarrow> h)"

text \<open>
  One timer fire, the closure \<open>run\<close> of \<open>startJobForConfig\<close>. \<open>now\<close> is \<open>Date.now()\<close> at the
  fire. The two awaited calls are answered by the environment: \<open>imp\<close> is the outcome of
  \<open>importSheetsAndSave\<close> (\<open>Inl\<close> when it rejects), \<open>stamp\<close> the outcome of the
  \<open>findOneAndUpdate\<close> that follows it (\<open>Inr t\<close> when it stores \<open>new Date() = t\<close>). The
  rate check and the history update run before the first \<open>await\<close>, so they are atomic for
  each fire; the whole body is inside one \<open>try\<close>, whose \<open>catch\<close> only logs.
\<close>

definition run :: "key \<Rightarrow> int \<Rightarrow> error + 'r \<Rightarrow> error + int \<Rightarrow> state \<Rightarrow> state" where
  "run k now imp stamp st =
     (let windowStart = now - 60000;
          hist = filter (\<lambda>t. t \<ge> windowStart) (hist_of st k)
      in if length hist \<ge> MAX_IMPORTS_PER_MINUTE
         then st\<lparr>runHistory := (runHistory st)(k \<mapsto> hist),
                 trace := trace st @ [Warn_rate_limit k (length hist)]\<rparr>
         else
           let st1 = st\<lparr>runHistory := (runHistory st)(k \<mapsto> hist @ [now]),
                        trace := trace st @ [Call_import k]\<rparr>
           in (case imp of
                 Inl e \<Rightarrow> st1\<lparr>trace := trace st1 @ [Error_failed k e]\<rparr>
               | Inr _ \<Rightarrow>
                  (case stamp of
                     Inl e \<Rightarrow> st1\<lparr>trace := trace st1 @ [Error_failed k e]\<rparr>
                   | Inr t \<Rightarrow> st1\<lparr>configs := set_lastRunAt k t (configs st1),
                                    trace := trace st1 @ [Log_refreshed k]\<rparr>)))"

text \<open>\<open>stopJobForConfig\<close>: clear the timer if there is one, and forget the history.\<close>

definition stopJobForConfig :: "key \<Rightarrow> state \<Rightarrow> state" where
  "stopJobForConfig k st =
     st\<lparr>intervals := (intervals st)(k := None), runHistory := (runHistory st)(k := None)\<rparr>"

text \<open>A fire with the answers of the environment to it.\<close>

record 'r fire =
  fired_at :: int
  import_outcome :: "error + 'r"
  stamp_outcome :: "error + int"

definition run_fire :: "key \<Rightarrow> state \<Rightarrow> 'r fire \<Rightarrow> state" where
  "run_fire k st f = run k (fired_at f) (import_outcome f) (stamp_outcome f) st"

definition run_fires :: "key \<Rightarrow> 'r fire list \<Rightarrow> state \<Rightarrow> state" where
  "run_fires k fs st = foldl (run_fire k) st fs"

definition invocations :: "key \<Rightarrow> state \<Rightarrow> nat" where
  "invocations k st = length (filter (\<lambda>e. e = Call_import k) (trace st))"

fun is_skip :: "key \<Rightarrow> event \<Rightarrow> bool" where
  "is_skip k (Warn_rate_limit k' n) = (k' = k)"
| "is_skip k _ = False"

definition skips :: "key \<Rightarrow> state \<Rightarrow> nat" where
  "skips k st = length (filter (is_skip k) (trace st))"

section \<open>Example inputs\<close>

text \<open>A scheduler with one stored configuration and no timer, history or output yet.\<close>

definition st0 :: state where
  "st0 = \<lparr>intervals = Map.empty, runHistory = Map.empty,
          configs = [''sheet-1'' \<mapsto> \<lparr>autoRefresh = True, lastRunAt = None\<rparr>],
          trace = []\<rparr>"

text \<open>Twenty-five fires one second apart, every import and every stamp going through.\<close>

definition fires25 :: "unit fire list" where
  "fires25 =
     map (\<lambda>i. \<lparr>fired_at = 1000 * int i, import_outcome = Inr (), stamp_outcome = Inr (1000 * int i + 500)\<rparr>)
         [0..<25]"

text \<open>The tab of the Recruiter scenario.\<close>

definition jane_tab :: response where
  "jane_tab = \<lparr>sheet_values = Some [[''Name'', ''Email'', ''Hired'', ''Status''],
                                     [''Jane'', ''jane@x.com'', ''7'', ''active'']]\<rparr>"

text \<open>
  The record that the Recruiter scenario would give if every field without a column of
  its own took its default.
\<close>

definition jane_with_defaults :: obj where
  "jane_with_defaults =
     [(''name'', Str ''Jane''), (''email'', Str ''jane@x.com''), (''phone'', Str []),
      (''department'', Str []), (''territory'', Str []), (''hired'', Num (Fin 7)),
      (''joinDate'', Str []), (''reportingManager'', Str []), (''remarks'', Str []),
      (''backendCallingsRemarks'', Str []), (''recruiterBackendCallings'', Str []),
      (''status'', Str ''active''), (''trend'', Str ''up''), (''location'', Str [])]"

text \<open>
  Environments and collaborators: nothing configured; a service account whose token
  exchange is refused; a service account that is accepted while the spreadsheet API
  rejects every request.
\<close>

definition env_none :: env where
  "env_none = \<lparr>GOOGLE_SERVICE_ACCOUNT_EMAIL = None, GOOGLE_SERVICE_ACCOUNT_PRIVATE_KEY = None,
               GOOGLE_SHEETS_API_KEY = None\<rparr>"

definition env_sa :: env where
  "env_sa = \<lparr>GOOGLE_SERVICE_ACCOUNT_EMAIL = Some ''svc@example.iam'',
             GOOGLE_SERVICE_ACCOUNT_PRIVATE_KEY = Some ''KEY'',
             GOOGLE_SHEETS_API_KEY = None\<rparr>"

definition co_refused :: collab where
  "co_refused = \<lparr>jwt_authorize = (\<lambda>_ _. False),
                 values_get = (\<lambda>_ _ _. Inl ''unreachable''),
                 http_get = (\<lambda>_ _ _. Fetch_rejected ''unreachable'')\<rparr>"

definition co_api_down :: collab where
  "co_api_down = \<lparr>jwt_authorize = (\<lambda>_ _. True),
                  values_get = (\<lambda>_ _ _. Inl ''quota exceeded''),
                  http_get = (\<lambda>_ _ _. Fetch_rejected ''unreachable'')\<rparr>"

text \<open>
  A spreadsheet read with an API key. Three tabs hold one data row each; the performance
  tab is an empty sheet, for which the API sends no \<open>values\<close>.
\<close>

definition env_key :: env where
  "env_key = \<lparr>GOOGLE_SERVICE_ACCOUNT_EMAIL = None, GOOGLE_SERVICE_ACCOUNT_PRIVATE_KEY = None,
              GOOGLE_SHEETS_API_KEY = Some ''K''\<rparr>"

definition candidates_tab :: response where
  "candidates_tab = \<lparr>sheet_values = Some [[''Name'', ''Position''], [''Bo'', ''QA'']]\<rparr>"

definition clients_tab :: response where
  "clients_tab = \<lparr>sheet_values = Some [[''Name'', ''Company''], [''Acme'', ''Acme Ltd'']]\<rparr>"

definition cfg1 :: config where
  "cfg1 = \<lparr>spreadsheetId = ''doc'', apiKey = None,
           ranges = (\<lambda>k. case k of Recruiters \<Rightarrow> ''Recruiters!A:J'' | Candidates \<Rightarrow> ''Candidates!A:L''
                                  | Clients \<Rightarrow> ''Clients!A:J'' | Performance \<Rightarrow> ''Performance!A:D'')\<rparr>"

definition co_sheets :: collab where
  "co_sheets =
     \<lparr>jwt_authorize = (\<lambda>_ _. False),
      values_get = (\<lambda>_ _ _. Inl ''unreachable''),
      http_get = (\<lambda>sid rng k.
        if rng = ''Recruiters!A:J'' then Http_response True 200 (Inr jane_tab)
        else if rng = ''Candidates!A:L'' then Http_response True 200 (Inr candidates_tab)
        else if rng = ''Clients!A:J'' then Http_response True 200 (Inr clients_tab)
        else Http_response True 200 (Inr \<lparr>sheet_values = None\<rparr>))\<rparr>"

text \<open>The same spreadsheet with candidate rows in the recruiters tab as well.\<close>

definition al_tab :: response where
  "al_tab = \<lparr>sheet_values = Some [[''Name'', ''Role''], [''Al'', ''Dev'']]\<rparr>"

definition co_mislabelled :: collab where
  "co_mislabelled =
     \<lparr>jwt_authorize = (\<lambda>_ _. False),
      values_get = (\<lambda>_ _ _. Inl ''unreachable''),
      http_get = (\<lambda>sid rng k.
        if rng = ''Recruiters!A:J''
        then Http_response True 200 (Inr al_tab)
        else if rng = ''Candidates!A:L'' then Http_response True 200 (Inr candidates_tab)
        else if rng = ''Clients!A:J'' then Http_response True 200 (Inr clients_tab)
        else Http_response True 200 (Inr \<lparr>sheet_values = None\<rparr>))\<rparr>"

text \<open>A store that holds one document of every kind from an earlier import.\<close>

definition st_old :: store where
  "st_old k =
     (case k of
        Recruiters \<Rightarrow> [[(''name'', Str ''Old recruiter'')]]
      | Candidates \<Rightarrow> [[(''name'', Str ''Old candidate'')]]
      | Clients \<Rightarrow> [[(''name'', Str ''Old client'')]]
      | Performance \<Rightarrow> [[(''month'', Str ''2024-01''), (''recruiters'', Num (Fin 3)),
                         (''hired'', Num (Fin 2)), (''target'', Num (Fin 4))]])"

section \<open>The scheduler: rate limit and last-run stamp\<close>

lemma filter_window_id:
  "\<forall>t\<in>set h. a \<le> t \<Longrightarrow> now \<le> a + 60000 \<Longrightarrow> filter (\<lambda>t. t \<ge> now - 60000) h = (h::int list)"
  by (induction h) auto

lemma filter_window_none:
  "\<forall>t\<in>set h. t < a - 60000 \<Longrightarrow> a \<le> now \<Longrightarrow> filter (\<lambda>t. t \<ge> now - 60000) h = ([]::int list)"
  by (induction h) auto

lemma hist_of_upd [simp]:
  "hist_of (st\<lparr>runHistory := (runHistory st)(k \<mapsto> h), trace := tr\<rparr>) k = h"
  by (simp add: hist_of_def)

lemma run_invoke:
  assumes "filter (\<lambda>t. t \<ge> now - 60000) (hist_of st k) = h"
      and "length h < MAX_IMPORTS_PER_MINUTE"
  shows "hist_of (run k now imp stamp st) k = h @ [now]"
    and "invocations k (run k now imp stamp st) = Suc (invocations k st)"
    and "skips k (run k now imp stamp st) = skips k st"
    and "intervals (run k now imp stamp st) = intervals st"
  using assms
  by (auto simp: run_def hist_of_def invocations_def skips_def Let_def split: sum.splits)

lemma run_skip:
  assumes "filter (\<lambda>t. t \<ge> now - 60000) (hist_of st k) = h"
      and "length h \<ge> MAX_IMPORTS_PER_MINUTE"
  shows "hist_of (run k now imp stamp st) k = h"
    and "invocations k (run k now imp stamp st) = invocations k st"
    and "skips k (run k now imp stamp st) = Suc (skips k st)"
    and "intervals (run k now imp stamp st) = intervals st"
    and "configs (run k now imp stamp st) = configs st"
  using assms
  by (auto simp: run_def hist_of_def invocations_def skips_def Let_def split: sum.splits)

lemma run_fires_window:
  assumes "\<forall>f\<in>set fs. a \<le> fired_at f \<and> fired_at f \<le> a + 60000"
      and "\<forall>t\<in>set (hist_of st k). a \<le> t"
      and "length (hist_of st k) \<le> MAX_IMPORTS_PER_MINUTE"
  shows "hist_of (run_fires k fs st) k
           = take MAX_IMPORTS_PER_MINUTE (hist_of st k @ map fired_at fs)
       \<and> invocations k (run_fires k fs st)
           = invocations k st + min (length fs) (MAX_IMPORTS_PER_MINUTE - length (hist_of st k))
       \<and> skips k (run_fires k fs st)
           = skips k st + (length fs - (MAX_IMPORTS_PER_MINUTE - length (hist_of st k)))
       \<and> intervals (run_fires k fs st) = intervals st"
  using assms
proof (induction fs arbitrary: st)
  case Nil
  then show ?case by (simp add: run_fires_def)
next
  case (Cons f fs)
  let ?st' = "run_fire k st f"
  have rf: "run_fires k (f # fs) st = run_fires k fs ?st'"
    by (simp add: run_fires_def)
  have inwin: "fired_at f \<le> a + 60000" "a \<le> fired_at f" using Cons.prems(1) by auto
  have flt: "filter (\<lambda>t. t \<ge> fired_at f - 60000) (hist_of st k) = hist_of st k"
    using filter_window_id[OF Cons.prems(2) inwin(1)] .
  have p1: "\<forall>f\<in>set fs. a \<le> fired_at f \<and> fired_at f \<le> a + 60000" using Cons.prems(1) by simp
  show ?case
  proof (cases "length (hist_of st k) < MAX_IMPORTS_PER_MINUTE")
    case True
    note step = run_invoke[OF flt True, of "import_outcome f" "stamp_outcome f"]
    have h': "hist_of ?st' k = hist_of st k @ [fired_at f]"
      using step(1) by (simp add: run_fire_def)
    have p2: "\<forall>t\<in>set (hist_of ?st' k). a \<le> t" using h' Cons.prems(2) inwin by auto
    have p3: "length (hist_of ?st' k) \<le> MAX_IMPORTS_PER_MINUTE" using h' True by simp
    note IH = Cons.IH[OF p1 p2 p3]
    show ?thesis
      unfolding rf using IH step True h'
      by (auto simp: run_fire_def min_def)
  next
    case False
    then have ge: "length (hist_of st k) \<ge> MAX_IMPORTS_PER_MINUTE" by simp
    note step = run_skip[OF flt ge, of "import_outcome f" "stamp_outcome f"]
    have h': "hist_of ?st' k = hist_of st k"
      using step(1) by (simp add: run_fire_def)
    have p2: "\<forall>t\<in>set (hist_of ?st' k). a \<le> t" using h' Cons.prems(2) by auto
    have p3: "length (hist_of ?st' k) \<le> MAX_IMPORTS_PER_MINUTE" using h' Cons.prems(3) by simp
    note IH = Cons.IH[OF p1 p2 p3]
    show ?thesis
      unfolding rf using IH step ge h' Cons.prems(3)
      by (auto simp: run_fire_def min_def)
  qed
qed

text \<open>
  Claim C3. Twenty-five fires for one key, all inside one window of 60 seconds, with no
  run recorded for the key in the 60 seconds before the window: exactly twenty of them
  call the import, and these are the first twenty, whose times make up the history of the
  key afterwards; the other five log the rate-limit warning; no fire touches the timers.
\<close>

theorem rate_limiter_25_fires:
  assumes len: "length fs = 25"
      and win: "\<forall>f\<in>set fs. a \<le> fired_at f \<and> fired_at f \<le> a + 60000"
      and old: "\<forall>t\<in>set (hist_of st k). t < a - 60000"
  shows "invocations k (run_fires k fs st) = invocations k st + 20
       \<and> skips k (run_fires k fs st) = skips k st + 5
       \<and> runHistory (run_fires k fs st) k = Some (map fired_at (take 20 fs))
       \<and> intervals (run_fires k fs st) = intervals st"
proof -
  obtain f fs' where fs: "fs = f # fs'" and len': "length fs' = 24"
    using len by (cases fs) auto
  let ?st1 = "run_fire k st f"
  have inwin: "a \<le> fired_at f" "fired_at f \<le> a + 60000" using win fs by auto
  have flt: "filter (\<lambda>t. t \<ge> fired_at f - 60000) (hist_of st k) = []"
    using filter_window_none[OF old inwin(1)] .
  have lt: "length ([]::int list) < MAX_IMPORTS_PER_MINUTE"
    by (simp add: MAX_IMPORTS_PER_MINUTE_def)
  note step = run_invoke[OF flt lt, of "import_outcome f" "stamp_outcome f"]
  have h1: "hist_of ?st1 k = [fired_at f]" using step(1) by (simp add: run_fire_def)
  have p1: "\<forall>f\<in>set fs'. a \<le> fired_at f \<and> fired_at f \<le> a + 60000" using win fs by simp
  have p2: "\<forall>t\<in>set (hist_of ?st1 k). a \<le> t" using h1 inwin by simp
  have p3: "length (hist_of ?st1 k) \<le> MAX_IMPORTS_PER_MINUTE"
    using h1 by (simp add: MAX_IMPORTS_PER_MINUTE_def)
  note rest = run_fires_window[OF p1 p2 p3]
  have rf: "run_fires k fs st = run_fires k fs' ?st1"
    by (simp add: run_fires_def fs)
  have "hist_of (run_fires k fs' ?st1) k = map fired_at (take 20 (f # fs'))"
    using rest h1 by (simp add: MAX_IMPORTS_PER_MINUTE_def take_map)
  then have hist: "hist_of (run_fires k fs st) k = map fired_at (take 20 fs)"
    by (simp only: rf) (simp only: fs)
  have some: "runHistory (run_fires k fs st) k \<noteq> None"
  proof
    assume "runHistory (run_fires k fs st) k = None"
    then have "hist_of (run_fires k fs st) k = []" by (simp add: hist_of_def)
    with hist show False using len by (simp add: fs)
  qed
  from some hist have rh: "runHistory (run_fires k fs st) k = Some (map fired_at (take 20 fs))"
    by (auto simp: hist_of_def)
  show ?thesis
    using rest step h1 len' rh
    by (simp add: rf run_fire_def MAX_IMPORTS_PER_MINUTE_def)
qed

text \<open>The theorem of C3 at \<open>fires25\<close>, started from \<open>st0\<close>.\<close>

theorem rate_limiter_25_fires_witness:
  "invocations ''sheet-1'' (run_fires ''sheet-1'' fires25 st0) = 20
   \<and> skips ''sheet-1'' (run_fires ''sheet-1'' fires25 st0) = 5
   \<and> runHistory (run_fires ''sheet-1'' fires25 st0) ''sheet-1''
       = Some (map fired_at (take 20 fires25))
   \<and> intervals (run_fires ''sheet-1'' fires25 st0) = Map.empty"
proof -
  have len: "length fires25 = 25" by (simp add: fires25_def)
  have win: "\<forall>f\<in>set fires25. 0 \<le> fired_at f \<and> fired_at f \<le> 0 + 60000"
    by (auto simp: fires25_def)
  have old: "\<forall>t\<in>set (hist_of st0 ''sheet-1''). t < 0 - 60000"
    by (simp add: hist_of_def st0_def)
  have i0: "invocations ''sheet-1'' st0 = 0" "skips ''sheet-1'' st0 = 0" "intervals st0 = Map.empty"
    by (simp_all add: invocations_def skips_def st0_def)
  show ?thesis
    using rate_limiter_25_fires[OF len win old] i0 by simp
qed

text \<open>
  Claim C2, as stated, fails: a fire passes the rate check and calls the import, the
  import rejects, and \<open>lastRunAt\<close> of the configuration is still unset afterwards. The
  \<open>catch\<close> of \<open>run\<close> logs the error and does nothing else.
\<close>

theorem run_failed_import_counterexample:
  "Call_import ''sheet-1''
     \<in> set (trace (run ''sheet-1'' 1000 (Inl (Rejected ''boom'') :: error + unit) (Inr 2000) st0))
   \<and> map_option lastRunAt
       (configs (run ''sheet-1'' 1000 (Inl (Rejected ''boom'') :: error + unit) (Inr 2000) st0)
          ''sheet-1'') = Some None"
  by (simp add: run_def st0_def hist_of_def MAX_IMPORTS_PER_MINUTE_def Let_def)

text \<open>
  Claim C2, amended. A fire that passes the rate check records its time in the history of
  the key and calls the import. When the import returns and the update of the
  configuration goes through, \<open>lastRunAt\<close> of the configuration becomes the time of the
  update and the refresh is logged; when the import rejects (or the update does), the
  configurations are left as they were and the error is logged.
\<close>

theorem run_stamps_after_import_returns:
  assumes pass: "length (filter (\<lambda>t. t \<ge> now - 60000) (hist_of st k)) < MAX_IMPORTS_PER_MINUTE"
  shows "runHistory (run k now imp stamp st) k
           = Some (filter (\<lambda>t. t \<ge> now - 60000) (hist_of st k) @ [now])
       \<and> invocations k (run k now imp stamp st) = Suc (invocations k st)
       \<and> (case imp of
             Inr r \<Rightarrow>
               (case stamp of
                  Inr t \<Rightarrow>
                    configs (run k now imp stamp st) k
                      = map_option (\<lambda>c. c\<lparr>lastRunAt := Some t\<rparr>) (configs st k)
                    \<and> trace (run k now imp stamp st) = trace st @ [Call_import k, Log_refreshed k]
                | Inl e \<Rightarrow>
                    configs (run k now imp stamp st) = configs st
                    \<and> trace (run k now imp stamp st) = trace st @ [Call_import k, Error_failed k e])
           | Inl e \<Rightarrow>
               configs (run k now imp stamp st) = configs st
               \<and> trace (run k now imp stamp st) = trace st @ [Call_import k, Error_failed k e])"
  using pass
  by (auto simp: run_def Let_def invocations_def set_lastRunAt_def split: sum.splits option.splits)

text \<open>The theorem of C2 at \<open>st0\<close>: one fire whose import returns, one whose import rejects.\<close>

theorem run_stamps_after_import_returns_witness:
  "map_option lastRunAt
     (configs (run ''sheet-1'' 1000 (Inr () :: error + unit) (Inr 2000) st0) ''sheet-1'')
     = Some (Some 2000)
   \<and> runHistory (run ''sheet-1'' 1000 (Inr () :: error + unit) (Inr 2000) st0) ''sheet-1''
       = Some [1000]
   \<and> configs (run ''sheet-1'' 1000 (Inl NotConfigured :: error + unit) (Inr 2000) st0) = configs st0"
proof -
  have pass: "length (filter (\<lambda>t. t \<ge> 1000 - 60000) (hist_of st0 ''sheet-1'')) < MAX_IMPORTS_PER_MINUTE"
    by (simp add: hist_of_def st0_def MAX_IMPORTS_PER_MINUTE_def)
  have c0: "configs st0 ''sheet-1'' = Some \<lparr>autoRefresh = True, lastRunAt = None\<rparr>"
    by (simp add: st0_def)
  have h0: "hist_of st0 ''sheet-1'' = []" by (simp add: hist_of_def st0_def)
  show ?thesis
    using run_stamps_after_import_returns[OF pass, of "Inr () :: error + unit" "Inr 2000"]
          run_stamps_after_import_returns[OF pass, of "Inl NotConfigured :: error + unit" "Inr 2000"] c0 h0
    by simp
qed

section \<open>Fetching: the fallback and the configuration error\<close>

lemma sa_result_has_values:
  "fetchSheetViaServiceAccount ev co sid rng = Inr (Some r) \<Longrightarrow> sheet_values r \<noteq> None"
  by (auto simp: fetchSheetViaServiceAccount_def split: option.splits sum.splits)

lemma fetchSheetViaApiKey_not_config:
  "fetchSheetViaApiKey co sid rng k \<noteq> Inl NotConfigured"
  by (auto simp: fetchSheetViaApiKey_def split: http_result.splits sum.splits)

lemma js_or_empty_iff:
  "js_or a (js_or b []) = [] \<longleftrightarrow> a \<in> {None, Some []} \<and> b \<in> {None, Some []}"
  by (auto simp: js_or_def split: option.splits)

lemma getServiceAccountClient_None_iff:
  "getServiceAccountClient ev co = None \<longleftrightarrow>
     GOOGLE_SERVICE_ACCOUNT_EMAIL ev \<in> {None, Some []}
     \<or> GOOGLE_SERVICE_ACCOUNT_PRIVATE_KEY ev \<in> {None, Some []}
     \<or> (\<exists>e k. GOOGLE_SERVICE_ACCOUNT_EMAIL ev = Some e
              \<and> GOOGLE_SERVICE_ACCOUNT_PRIVATE_KEY ev = Some k
              \<and> \<not> jwt_authorize co e (unescape_newlines k))"
  by (auto simp: getServiceAccountClient_def Let_def split: option.splits)

text \<open>
  Claim C9. \<open>fetchSheet\<close> raises the configuration error exactly when the service-account
  strategy gives no data (it returned \<open>null\<close>, or its error was caught) and no API key
  comes with the call or from the environment. The service-account strategy returns
  \<open>null\<close> without raising exactly when a credential is absent or empty or the token
  exchange fails, and it raises exactly when a client was obtained and the spreadsheet API
  rejected the request: the two outcomes are different results of the function.
\<close>

theorem fetchSheet_configuration_error:
  "(fetchSheet ev co sid rng ak = Inl NotConfigured
      \<longleftrightarrow> (\<nexists>r. fetchSheetViaServiceAccount ev co sid rng = Inr (Some r))
          \<and> ak \<in> {None, Some []} \<and> GOOGLE_SHEETS_API_KEY ev \<in> {None, Some []})
   \<and> (fetchSheetViaServiceAccount ev co sid rng = Inr None
      \<longleftrightarrow> GOOGLE_SERVICE_ACCOUNT_EMAIL ev \<in> {None, Some []}
          \<or> GOOGLE_SERVICE_ACCOUNT_PRIVATE_KEY ev \<in> {None, Some []}
          \<or> (\<exists>e k. GOOGLE_SERVICE_ACCOUNT_EMAIL ev = Some e
                   \<and> GOOGLE_SERVICE_ACCOUNT_PRIVATE_KEY ev = Some k
                   \<and> \<not> jwt_authorize co e (unescape_newlines k)))
   \<and> ((\<exists>e. fetchSheetViaServiceAccount ev co sid rng = Inl e)
      \<longleftrightarrow> (\<exists>auth msg. getServiceAccountClient ev co = Some auth
                       \<and> values_get co auth sid rng = Inl msg))"
proof (intro conjI)
  show "fetchSheet ev co sid rng ak = Inl NotConfigured
      \<longleftrightarrow> (\<nexists>r. fetchSheetViaServiceAccount ev co sid rng = Inr (Some r))
          \<and> ak \<in> {None, Some []} \<and> GOOGLE_SHEETS_API_KEY ev \<in> {None, Some []}"
  proof (cases "fetchSheetViaServiceAccount ev co sid rng")
    case (Inl e)
    then show ?thesis
      using fetchSheetViaApiKey_not_config[of co sid rng] js_or_empty_iff[of ak "GOOGLE_SHEETS_API_KEY ev"]
      by (auto simp: fetchSheet_def Let_def)
  next
    case (Inr x)
    show ?thesis
    proof (cases x)
      case None
      then show ?thesis
        using Inr fetchSheetViaApiKey_not_config[of co sid rng]
              js_or_empty_iff[of ak "GOOGLE_SHEETS_API_KEY ev"]
        by (auto simp: fetchSheet_def Let_def)
    next
      case (Some r)
      then have "sheet_values r \<noteq> None" using Inr sa_result_has_values by blast
      then show ?thesis using Inr Some
        by (auto simp: fetchSheet_def Let_def split: option.splits)
    qed
  qed
next
  have "fetchSheetViaServiceAccount ev co sid rng = Inr None \<longleftrightarrow> getServiceAccountClient ev co = None"
    by (auto simp: fetchSheetViaServiceAccount_def split: option.splits sum.splits)
  then show "fetchSheetViaServiceAccount ev co sid rng = Inr None
      \<longleftrightarrow> GOOGLE_SERVICE_ACCOUNT_EMAIL ev \<in> {None, Some []}
          \<or> GOOGLE_SERVICE_ACCOUNT_PRIVATE_KEY ev \<in> {None, Some []}
          \<or> (\<exists>e k. GOOGLE_SERVICE_ACCOUNT_EMAIL ev = Some e
                   \<and> GOOGLE_SERVICE_ACCOUNT_PRIVATE_KEY ev = Some k
                   \<and> \<not> jwt_authorize co e (unescape_newlines k))"
    by (simp only: getServiceAccountClient_None_iff)
next
  show "(\<exists>e. fetchSheetViaServiceAccount ev co sid rng = Inl e)
      \<longleftrightarrow> (\<exists>auth msg. getServiceAccountClient ev co = Some auth
                       \<and> values_get co auth sid rng = Inl msg)"
    by (auto simp: fetchSheetViaServiceAccount_def split: option.splits sum.splits)
qed

text \<open>
  The theorem of C9 with nothing configured, with a refused token exchange, and with an
  accepted service account whose API request is rejected.
\<close>

theorem fetchSheet_configuration_error_witness:
  "fetchSheet env_none co_refused ''doc'' ''Recruiters!A:J'' None = Inl NotConfigured
   \<and> fetchSheetViaServiceAccount env_none co_refused ''doc'' ''Recruiters!A:J'' = Inr None
   \<and> fetchSheetViaServiceAccount env_sa co_refused ''doc'' ''Recruiters!A:J'' = Inr None
   \<and> (\<exists>e. fetchSheetViaServiceAccount env_sa co_api_down ''doc'' ''Recruiters!A:J'' = Inl e)
   \<and> fetchSheet env_sa co_api_down ''doc'' ''Recruiters!A:J'' (Some []) = Inl NotConfigured"
proof -
  note t1 = fetchSheet_configuration_error[of env_none co_refused "''doc''" "''Recruiters!A:J''" None]
  note t2 = fetchSheet_configuration_error[of env_sa co_refused "''doc''" "''Recruiters!A:J''" None]
  note t3 = fetchSheet_configuration_error[of env_sa co_api_down "''doc''" "''Recruiters!A:J''" "Some []"]
  have a: "fetchSheetViaServiceAccount env_none co_refused ''doc'' ''Recruiters!A:J'' = Inr None"
    using t1 by (simp add: env_none_def)
  have b: "fetchSheet env_none co_refused ''doc'' ''Recruiters!A:J'' None = Inl NotConfigured"
    using t1 a by (simp add: env_none_def)
  have c: "fetchSheetViaServiceAccount env_sa co_refused ''doc'' ''Recruiters!A:J'' = Inr None"
    using t2 by (simp add: env_sa_def co_refused_def)
  have cl: "getServiceAccountClient env_sa co_api_down = Some (''svc@example.iam'', ''KEY'')"
    by (simp add: getServiceAccountClient_def env_sa_def co_api_down_def)
  have d: "\<exists>e. fetchSheetViaServiceAccount env_sa co_api_down ''doc'' ''Recruiters!A:J'' = Inl e"
    using t3 cl by (simp add: co_api_down_def)
  have e: "fetchSheet env_sa co_api_down ''doc'' ''Recruiters!A:J'' (Some []) = Inl NotConfigured"
    using t3 d by (auto simp: env_sa_def)
  show ?thesis using a b c d e by simp
qed

section \<open>Inference and the Recruiter mapper\<close>

lemma has_iff: "has header keys \<longleftrightarrow> set header \<inter> set keys \<noteq> {}"
  by (auto simp: has_def list_ex_iff)

text \<open>
  Claim C5, as stated, fails in one part: the four keyword sets are not disjoint, since
  \<open>hired\<close> is a recruiter keyword and a performance keyword.
\<close>

theorem keyword_sets_disjoint_counterexample:
  "''hired'' \<in> set recruiter_keys \<inter> set performance_keys"
  by (simp add: recruiter_keys_def performance_keys_def)

text \<open>
  Claim C5, amended. On a response with a header row, \<open>inferType\<close> answers the first of
  candidates, clients, recruiters, performance whose keyword set meets the trimmed,
  lower-cased header, and \<open>null\<close> when none does. A header with \<open>industry\<close> and \<open>target\<close>
  and no candidate keyword is a clients sheet. The keyword sets are pairwise disjoint
  except that the recruiter and the performance set share \<open>hired\<close>.
\<close>

theorem inferType_priority:
  assumes "sheet_values r = Some (h # rows)"
  shows "(inferType (Some r) = Some Candidates
            \<longleftrightarrow> set (lower_header h) \<inter> set candidate_keys \<noteq> {})
       \<and> (inferType (Some r) = Some Clients
            \<longleftrightarrow> set (lower_header h) \<inter> set candidate_keys = {}
                \<and> set (lower_header h) \<inter> set client_keys \<noteq> {})
       \<and> (inferType (Some r) = Some Recruiters
            \<longleftrightarrow> set (lower_header h) \<inter> set candidate_keys = {}
                \<and> set (lower_header h) \<inter> set client_keys = {}
                \<and> set (lower_header h) \<inter> set recruiter_keys \<noteq> {})
       \<and> (inferType (Some r) = Some Performance
            \<longleftrightarrow> set (lower_header h) \<inter> set candidate_keys = {}
                \<and> set (lower_header h) \<inter> set client_keys = {}
                \<and> set (lower_header h) \<inter> set recruiter_keys = {}
                \<and> set (lower_header h) \<inter> set performance_keys \<noteq> {})
       \<and> (inferType (Some r) = None
            \<longleftrightarrow> set (lower_header h) \<inter> set candidate_keys = {}
                \<and> set (lower_header h) \<inter> set client_keys = {}
                \<and> set (lower_header h) \<inter> set recruiter_keys = {}
                \<and> set (lower_header h) \<inter> set performance_keys = {})
       \<and> (''industry'' \<in> set (lower_header h) \<and> ''target'' \<in> set (lower_header h)
            \<and> set (lower_header h) \<inter> set candidate_keys = {}
            \<longrightarrow> inferType (Some r) = Some Clients)
       \<and> set candidate_keys \<inter> set client_keys = {}
       \<and> set candidate_keys \<inter> set recruiter_keys = {}
       \<and> set candidate_keys \<inter> set performance_keys = {}
       \<and> set client_keys \<inter> set recruiter_keys = {}
       \<and> set client_keys \<inter> set performance_keys = {}
       \<and> set recruiter_keys \<inter> set performance_keys = {''hired''}"
proof -
  have it: "inferType (Some r) = infer_header (lower_header h)"
    using assms by (simp add: inferType_def)
  have ind: "''industry'' \<in> set client_keys" by (simp add: client_keys_def)
  have d1: "set candidate_keys \<inter> set client_keys = {}"
    by (simp add: candidate_keys_def client_keys_def)
  have d2: "set candidate_keys \<inter> set recruiter_keys = {}"
    by (simp add: candidate_keys_def recruiter_keys_def)
  have d3: "set candidate_keys \<inter> set performance_keys = {}"
    by (simp add: candidate_keys_def performance_keys_def)
  have d4: "set client_keys \<inter> set recruiter_keys = {}"
    by (simp add: client_keys_def recruiter_keys_def)
  have d5: "set client_keys \<inter> set performance_keys = {}"
    by (simp add: client_keys_def performance_keys_def)
  have d6: "set recruiter_keys \<inter> set performance_keys = {''hired''}"
    by (auto simp: recruiter_keys_def performance_keys_def)
  have chain: "(infer_header (lower_header h) = Some Candidates
            \<longleftrightarrow> set (lower_header h) \<inter> set candidate_keys \<noteq> {})
       \<and> (infer_header (lower_header h) = Some Clients
            \<longleftrightarrow> set (lower_header h) \<inter> set candidate_keys = {}
                \<and> set (lower_header h) \<inter> set client_keys \<noteq> {})
       \<and> (infer_header (lower_header h) = Some Recruiters
            \<longleftrightarrow> set (lower_header h) \<inter> set candidate_keys = {}
                \<and> set (lower_header h) \<inter> set client_keys = {}
                \<and> set (lower_header h) \<inter> set recruiter_keys \<noteq> {})
       \<and> (infer_header (lower_header h) = Some Performance
            \<longleftrightarrow> set (lower_header h) \<inter> set candidate_keys = {}
                \<and> set (lower_header h) \<inter> set client_keys = {}
                \<and> set (lower_header h) \<inter> set recruiter_keys = {}
                \<and> set (lower_header h) \<inter> set performance_keys \<noteq> {})
       \<and> (infer_header (lower_header h) = None
            \<longleftrightarrow> set (lower_header h) \<inter> set candidate_keys = {}
                \<and> set (lower_header h) \<inter> set client_keys = {}
                \<and> set (lower_header h) \<inter> set recruiter_keys = {}
                \<and> set (lower_header h) \<inter> set performance_keys = {})"
    unfolding infer_header_def has_iff by simp
  have cl: "''industry'' \<in> set (lower_header h) \<and> ''target'' \<in> set (lower_header h)
            \<and> set (lower_header h) \<inter> set candidate_keys = {}
            \<longrightarrow> infer_header (lower_header h) = Some Clients"
    using chain ind by blast
  show ?thesis
    unfolding it using chain cl d1 d2 d3 d4 d5 d6 by blast
qed

text \<open>The theorem of C5 at the header \<open>Industry\<close>, \<open>Target\<close>.\<close>

theorem inferType_priority_witness:
  "inferType (Some \<lparr>sheet_values = Some [[''Industry'', '' Target '']]\<rparr>) = Some Clients"
proof -
  have lh: "lower_header [''Industry'', '' Target ''] = [''industry'', ''target'']"
    by code_simp
  have nc: "set [''industry'', ''target''] \<inter> set candidate_keys = {}"
    by (simp add: candidate_keys_def)
  show ?thesis
    using inferType_priority[of "\<lparr>sheet_values = Some [[''Industry'', '' Target '']]\<rparr>"
            "[''Industry'', '' Target '']" "[]"] lh nc
    by simp
qed

text \<open>
  Claim C8, as stated, fails: the record of the scenario is not the one with every other
  field at its default.
\<close>

theorem parseRecruiters_jane_counterexample:
  "parseRecruiters jane_tab \<noteq> [jane_with_defaults]"
  by code_simp

text \<open>
  Claim C8, amended. The scenario yields name \<open>Jane\<close>, email \<open>jane@x.com\<close>, hired \<open>7\<close> and
  status \<open>active\<close>; \<open>phone\<close> is \<open>7\<close> and \<open>department\<close> is \<open>active\<close>, taken from the third
  and fourth cell of the row by the positional fallback; every other field has its default
  (the empty string, and \<open>up\<close> for \<open>trend\<close>).
\<close>

theorem parseRecruiters_jane:
  "parseRecruiters jane_tab =
     [[(''name'', Str ''Jane''), (''email'', Str ''jane@x.com''), (''phone'', Str ''7''),
       (''department'', Str ''active''), (''territory'', Str []), (''hired'', Num (Fin 7)),
       (''joinDate'', Str []), (''reportingManager'', Str []), (''remarks'', Str []),
       (''backendCallingsRemarks'', Str []), (''recruiterBackendCallings'', Str []),
       (''status'', Str ''active''), (''trend'', Str ''up''), (''location'', Str [])]]"
  by code_simp

section \<open>The import: persistence and routing\<close>

lemma exec_ops_all_ok:
  "\<forall>i. ok i \<Longrightarrow> exec_ops ok i ops st = (fold apply_op ops st, False)"
  by (induction ops arbitrary: i st) auto

lemma persist_available:
  assumes "\<forall>i. ok i"
  shows "persist ok res st = ((\<lambda>k. field_of k res), False)"
proof -
  have "fold apply_op (persist_ops res) st = (\<lambda>k. field_of k res)"
  proof
    fix k
    show "fold apply_op (persist_ops res) st k = field_of k res"
      by (cases k) (simp_all add: persist_ops_def insert_if_any_def field_of_def)
  qed
  then show ?thesis
    using exec_ops_all_ok[OF assms] by (simp add: persist_def)
qed

lemma returned_import:
  "returned (importSheetsAndSave ev co ok cfg st) =
     parse_tabs (settled (fetchSheet ev co (spreadsheetId cfg) (ranges cfg Recruiters) (apiKey cfg)))
                (settled (fetchSheet ev co (spreadsheetId cfg) (ranges cfg Candidates) (apiKey cfg)))
                (settled (fetchSheet ev co (spreadsheetId cfg) (ranges cfg Clients) (apiKey cfg)))
                (settled (fetchSheet ev co (spreadsheetId cfg) (ranges cfg Performance) (apiKey cfg)))"
  by (simp add: importSheetsAndSave_def Let_def split: prod.splits)

lemma store_after_import:
  "store_after (importSheetsAndSave ev co ok cfg st)
     = fst (persist ok (returned (importSheetsAndSave ev co ok cfg st)) st)"
  "db_write_failed (importSheetsAndSave ev co ok cfg st)
     = snd (persist ok (returned (importSheetsAndSave ev co ok cfg st)) st)"
  by (simp_all add: importSheetsAndSave_def Let_def split: prod.splits)

text \<open>
  Claim C1, amended. When the store is available and one import parses no record for
  exactly one kind and at least one for each of the other three, the collection of the
  empty kind is emptied, and each other collection holds exactly the records parsed for
  its kind.
\<close>

theorem import_empties_empty_kind:
  assumes avail: "\<forall>i. ok i"
      and none: "field_of k0 (returned (importSheetsAndSave ev co ok cfg st)) = []"
      and some: "\<forall>k. k \<noteq> k0 \<longrightarrow> field_of k (returned (importSheetsAndSave ev co ok cfg st)) \<noteq> []"
  shows "store_after (importSheetsAndSave ev co ok cfg st) k0 = []
       \<and> (\<forall>k. k \<noteq> k0 \<longrightarrow>
            store_after (importSheetsAndSave ev co ok cfg st) k
              = field_of k (returned (importSheetsAndSave ev co ok cfg st)))
       \<and> \<not> db_write_failed (importSheetsAndSave ev co ok cfg st)"
  using none by (simp add: store_after_import persist_available[OF avail])

text \<open>
  Claim C4. When the four fetches succeed and the persistence step throws, the import
  still returns the records parsed from the four responses: the same value as with a
  store that accepts every call.
\<close>

theorem import_returns_when_store_fails:
  assumes f1: "fetchSheet ev co (spreadsheetId cfg) (ranges cfg Recruiters) (apiKey cfg) = Inr r1"
      and f2: "fetchSheet ev co (spreadsheetId cfg) (ranges cfg Candidates) (apiKey cfg) = Inr r2"
      and f3: "fetchSheet ev co (spreadsheetId cfg) (ranges cfg Clients) (apiKey cfg) = Inr r3"
      and f4: "fetchSheet ev co (spreadsheetId cfg) (ranges cfg Performance) (apiKey cfg) = Inr r4"
      and threw: "db_write_failed (importSheetsAndSave ev co ok cfg st)"
  shows "returned (importSheetsAndSave ev co ok cfg st)
           = parse_tabs (Some r1) (Some r2) (Some r3) (Some r4)
       \<and> returned (importSheetsAndSave ev co ok cfg st)
           = returned (importSheetsAndSave ev co (\<lambda>_. True) cfg st)"
  by (simp add: returned_import f1 f2 f3 f4 settled_def)

lemma field_of_set_field:
  "field_of k (set_field k' v acc) = (if k = k' then v else field_of k acc)"
  by (cases k; cases k') (simp_all add: field_of_def set_field_def)

lemma route_rRes_eq: "route_rRes resp acc = route Recruiters resp acc"
proof (cases resp)
  case None
  then show ?thesis by (simp add: route_rRes_def route_def)
next
  case (Some r)
  show ?thesis
  proof (cases "inferType resp")
    case None
    then show ?thesis using Some
      by (simp add: route_rRes_def route_def target_def parse_as_def set_field_def)
  next
    case (Some k)
    then show ?thesis using \<open>resp = Some r\<close>
      by (cases k) (simp_all add: route_rRes_def route_def target_def parse_as_def set_field_def)
  qed
qed

lemma route_cRes_eq: "route_cRes resp acc = route Candidates resp acc"
proof (cases resp)
  case None
  then show ?thesis by (simp add: route_cRes_def route_def)
next
  case (Some r)
  show ?thesis
  proof (cases "inferType resp")
    case None
    then show ?thesis using Some
      by (simp add: route_cRes_def route_def target_def parse_as_def set_field_def)
  next
    case (Some k)
    then show ?thesis using \<open>resp = Some r\<close>
      by (cases k) (simp_all add: route_cRes_def route_def target_def parse_as_def set_field_def)
  qed
qed

lemma route_clientsRes_eq: "route_clientsRes resp acc = route Clients resp acc"
proof (cases resp)
  case None
  then show ?thesis by (simp add: route_clientsRes_def route_def)
next
  case (Some r)
  show ?thesis
  proof (cases "inferType resp")
    case None
    then show ?thesis using Some
      by (simp add: route_clientsRes_def route_def target_def parse_as_def set_field_def)
  next
    case (Some k)
    then show ?thesis using \<open>resp = Some r\<close>
      by (cases k) (simp_all add: route_clientsRes_def route_def target_def parse_as_def set_field_def)
  qed
qed

lemma route_perfRes_eq: "route_perfRes resp acc = route Performance resp acc"
proof (cases resp)
  case None
  then show ?thesis by (simp add: route_perfRes_def route_def)
next
  case (Some r)
  show ?thesis
  proof (cases "inferType resp")
    case None
    then show ?thesis using Some
      by (simp add: route_perfRes_def route_def target_def parse_as_def set_field_def)
  next
    case (Some k)
    then show ?thesis using \<open>resp = Some r\<close>
      by (cases k) (simp_all add: route_perfRes_def route_def target_def parse_as_def set_field_def)
  qed
qed

lemma field_of_route:
  "field_of k (route n resp acc) =
     (if resp \<noteq> None \<and> target n resp = k
      then (case resp of None \<Rightarrow> [] | Some r \<Rightarrow> parse_as k r)
      else field_of k acc)"
  by (cases resp) (auto simp: route_def field_of_set_field)

lemma last_routed_snoc:
  "last_routed k (tabs @ [(n, resp)]) =
     (if resp \<noteq> None \<and> target n resp = k
      then (case resp of None \<Rightarrow> [] | Some r \<Rightarrow> parse_as k r)
      else last_routed k tabs)"
  by (auto simp: last_routed_def Let_def)

lemma field_of_fold_route:
  "field_of k (fold (\<lambda>(n, resp). route n resp) tabs acc) =
     (if filter (\<lambda>(n, resp). resp \<noteq> None \<and> target n resp = k) tabs = []
      then field_of k acc else last_routed k tabs)"
proof (induction tabs rule: rev_induct)
  case Nil
  then show ?case by simp
next
  case (snoc x xs)
  obtain n resp where x: "x = (n, resp)" by (cases x)
  show ?case
    using snoc by (simp add: x field_of_route last_routed_snoc)
qed

lemma parse_tabs_as_fold:
  "parse_tabs rRes cRes clientsRes perfRes =
     fold (\<lambda>(n, resp). route n resp)
          [(Recruiters, rRes), (Candidates, cRes), (Clients, clientsRes), (Performance, perfRes)]
          \<lparr>recruiters = [], candidates = [], clients = [], performance = []\<rparr>"
  by (simp add: parse_tabs_def route_rRes_eq route_cRes_eq route_clientsRes_eq route_perfRes_eq)

lemma field_of_parse_tabs:
  "field_of k (parse_tabs rRes cRes clientsRes perfRes) =
     last_routed k [(Recruiters, rRes), (Candidates, cRes), (Clients, clientsRes), (Performance, perfRes)]"
proof -
  have init: "field_of k \<lparr>recruiters = [], candidates = [], clients = [], performance = []\<rparr> = []"
    by (cases k) (simp_all add: field_of_def)
  show ?thesis
    unfolding parse_tabs_as_fold field_of_fold_route init
    by (simp add: last_routed_def Let_def)
qed

lemma last_routed_later:
  assumes "target n (Some r) = k"
      and "\<forall>(m, resp)\<in>set post. resp = None \<or> target m resp \<noteq> k"
  shows "last_routed k (pre @ (n, Some r) # post) = parse_as k r"
proof -
  have "filter (\<lambda>(nominal, resp). resp \<noteq> None \<and> target nominal resp = k) post = []"
    using assms(2) by (auto simp: filter_empty_conv)
  then show ?thesis
    using assms(1) by (simp add: last_routed_def Let_def)
qed

text \<open>
  Claim C10. For every kind, the import returns the rows of the last tab, in the order
  recruiters, candidates, clients, performance, that is routed to that kind: whatever
  earlier tabs were routed to it, their rows are not in the result. With the store
  available the collection of the kind holds exactly that result.
\<close>

theorem later_tab_overwrites:
  assumes tabs: "tabs =
       [(Recruiters, settled (fetchSheet ev co (spreadsheetId cfg) (ranges cfg Recruiters) (apiKey cfg))),
        (Candidates, settled (fetchSheet ev co (spreadsheetId cfg) (ranges cfg Candidates) (apiKey cfg))),
        (Clients, settled (fetchSheet ev co (spreadsheetId cfg) (ranges cfg Clients) (apiKey cfg))),
        (Performance, settled (fetchSheet ev co (spreadsheetId cfg) (ranges cfg Performance) (apiKey cfg)))]"
  shows "field_of k (returned (importSheetsAndSave ev co ok cfg st)) = last_routed k tabs
       \<and> (\<forall>pre n r post.
             tabs = pre @ (n, Some r) # post \<and> target n (Some r) = k
             \<and> (\<forall>(m, resp)\<in>set post. resp = None \<or> target m resp \<noteq> k)
             \<longrightarrow> field_of k (returned (importSheetsAndSave ev co ok cfg st)) = parse_as k r)
       \<and> ((\<forall>i. ok i) \<longrightarrow>
            store_after (importSheetsAndSave ev co ok cfg st) k
              = field_of k (returned (importSheetsAndSave ev co ok cfg st)))"
proof -
  have eq: "field_of k (returned (importSheetsAndSave ev co ok cfg st)) = last_routed k tabs"
    by (simp only: returned_import field_of_parse_tabs tabs)
  have later: "\<forall>pre n r post.
             tabs = pre @ (n, Some r) # post \<and> target n (Some r) = k
             \<and> (\<forall>(m, resp)\<in>set post. resp = None \<or> target m resp \<noteq> k)
             \<longrightarrow> field_of k (returned (importSheetsAndSave ev co ok cfg st)) = parse_as k r"
  proof (intro allI impI)
    fix pre n r post
    assume h: "tabs = pre @ (n, Some r) # post \<and> target n (Some r) = k
             \<and> (\<forall>(m, resp)\<in>set post. resp = None \<or> target m resp \<noteq> k)"
    then have "last_routed k tabs = parse_as k r"
      using last_routed_later[of n r k post pre] by simp
    then show "field_of k (returned (importSheetsAndSave ev co ok cfg st)) = parse_as k r"
      using eq by simp
  qed
  have stored: "(\<forall>i. ok i) \<longrightarrow>
            store_after (importSheetsAndSave ev co ok cfg st) k
              = field_of k (returned (importSheetsAndSave ev co ok cfg st))"
    by (simp add: store_after_import persist_available)
  show ?thesis using eq later stored by blast
qed

lemma fetch_jane: "fetchSheet env_key co_sheets ''doc'' ''Recruiters!A:J'' None = Inr jane_tab"
  by (simp add: fetchSheet_def fetchSheetViaServiceAccount_def getServiceAccountClient_def
        fetchSheetViaApiKey_def env_key_def co_sheets_def js_or_def Let_def)

lemma fetch_cand: "fetchSheet env_key co_sheets ''doc'' ''Candidates!A:L'' None = Inr candidates_tab"
  by (simp add: fetchSheet_def fetchSheetViaServiceAccount_def getServiceAccountClient_def
        fetchSheetViaApiKey_def env_key_def co_sheets_def js_or_def Let_def)

lemma fetch_cli: "fetchSheet env_key co_sheets ''doc'' ''Clients!A:J'' None = Inr clients_tab"
  by (simp add: fetchSheet_def fetchSheetViaServiceAccount_def getServiceAccountClient_def
        fetchSheetViaApiKey_def env_key_def co_sheets_def js_or_def Let_def)

lemma fetch_perf:
  "fetchSheet env_key co_sheets ''doc'' ''Performance!A:D'' None = Inr \<lparr>sheet_values = None\<rparr>"
  by (simp add: fetchSheet_def fetchSheetViaServiceAccount_def getServiceAccountClient_def
        fetchSheetViaApiKey_def env_key_def co_sheets_def js_or_def Let_def)

lemma ex1_parsed:
  "parse_tabs (Some jane_tab) (Some candidates_tab) (Some clients_tab) (Some \<lparr>sheet_values = None\<rparr>)
     = \<lparr>recruiters = parseRecruiters jane_tab, candidates = parseCandidates candidates_tab,
        clients = parseClients clients_tab, performance = []\<rparr>"
  by code_simp

text \<open>
  Claim C1, as stated, fails: with an empty performance tab and three tabs of one row, the
  store available, the performance collection held a document before the import and is
  empty after it. All four \<open>deleteMany\<close> run before the guarded inserts.
\<close>

theorem import_empty_tab_counterexample:
  "recruiters (returned (importSheetsAndSave env_key co_sheets (\<lambda>_. True) cfg1 st_old)) \<noteq> []
   \<and> candidates (returned (importSheetsAndSave env_key co_sheets (\<lambda>_. True) cfg1 st_old)) \<noteq> []
   \<and> clients (returned (importSheetsAndSave env_key co_sheets (\<lambda>_. True) cfg1 st_old)) \<noteq> []
   \<and> performance (returned (importSheetsAndSave env_key co_sheets (\<lambda>_. True) cfg1 st_old)) = []
   \<and> \<not> db_write_failed (importSheetsAndSave env_key co_sheets (\<lambda>_. True) cfg1 st_old)
   \<and> st_old Performance \<noteq> []
   \<and> store_after (importSheetsAndSave env_key co_sheets (\<lambda>_. True) cfg1 st_old) Performance = []"
  by code_simp

lemma ex1_returned:
  "returned (importSheetsAndSave env_key co_sheets ok cfg1 st)
     = \<lparr>recruiters = parseRecruiters jane_tab, candidates = parseCandidates candidates_tab,
        clients = parseClients clients_tab, performance = []\<rparr>"
  by (simp add: returned_import cfg1_def fetch_jane fetch_cand fetch_cli fetch_perf settled_def
        ex1_parsed)

lemma ex1_nonempty:
  "parseRecruiters jane_tab \<noteq> []" "parseCandidates candidates_tab \<noteq> []"
  "parseClients clients_tab \<noteq> []"
  by (simp_all add: parseRecruiters_def parseCandidates_def parseClients_def map_rows_def
        jane_tab_def candidates_tab_def clients_tab_def)

text \<open>The theorem of C1 at the spreadsheet with the empty performance tab.\<close>

theorem import_empties_empty_kind_witness:
  "store_after (importSheetsAndSave env_key co_sheets (\<lambda>_. True) cfg1 st_old) Performance = []
   \<and> store_after (importSheetsAndSave env_key co_sheets (\<lambda>_. True) cfg1 st_old) Recruiters
       = parseRecruiters jane_tab
   \<and> store_after (importSheetsAndSave env_key co_sheets (\<lambda>_. True) cfg1 st_old) Candidates
       = parseCandidates candidates_tab
   \<and> store_after (importSheetsAndSave env_key co_sheets (\<lambda>_. True) cfg1 st_old) Clients
       = parseClients clients_tab"
proof -
  let ?out = "importSheetsAndSave env_key co_sheets (\<lambda>_. True) cfg1 st_old"
  have avail: "\<forall>i. (\<lambda>_::nat. True) i" by simp
  have none: "field_of Performance (returned ?out) = []"
    by (simp add: ex1_returned field_of_def)
  have some: "\<forall>k. k \<noteq> Performance \<longrightarrow> field_of k (returned ?out) \<noteq> []"
  proof (intro allI impI)
    fix k :: kind assume "k \<noteq> Performance"
    then show "field_of k (returned ?out) \<noteq> []"
      by (cases k) (simp_all add: ex1_returned field_of_def ex1_nonempty)
  qed
  show ?thesis
    using import_empties_empty_kind[OF avail none some]
    by (simp add: ex1_returned field_of_def)
qed

text \<open>The theorem of C4 with a store that rejects every call.\<close>

theorem import_returns_when_store_fails_witness:
  "db_write_failed (importSheetsAndSave env_key co_sheets (\<lambda>_. False) cfg1 st_old)
   \<and> returned (importSheetsAndSave env_key co_sheets (\<lambda>_. False) cfg1 st_old)
       = parse_tabs (Some jane_tab) (Some candidates_tab) (Some clients_tab)
           (Some \<lparr>sheet_values = None\<rparr>)"
proof -
  have threw: "db_write_failed (importSheetsAndSave env_key co_sheets (\<lambda>_. False) cfg1 st_old)"
    by (simp add: store_after_import persist_def persist_ops_def)
  have f1: "fetchSheet env_key co_sheets (spreadsheetId cfg1) (ranges cfg1 Recruiters) (apiKey cfg1)
              = Inr jane_tab"
    by (simp add: cfg1_def fetch_jane)
  have f2: "fetchSheet env_key co_sheets (spreadsheetId cfg1) (ranges cfg1 Candidates) (apiKey cfg1)
              = Inr candidates_tab"
    by (simp add: cfg1_def fetch_cand)
  have f3: "fetchSheet env_key co_sheets (spreadsheetId cfg1) (ranges cfg1 Clients) (apiKey cfg1)
              = Inr clients_tab"
    by (simp add: cfg1_def fetch_cli)
  have f4: "fetchSheet env_key co_sheets (spreadsheetId cfg1) (ranges cfg1 Performance) (apiKey cfg1)
              = Inr \<lparr>sheet_values = None\<rparr>"
    by (simp add: cfg1_def fetch_perf)
  show ?thesis
    using import_returns_when_store_fails[OF f1 f2 f3 f4 threw] threw by simp
qed

lemma fetch_mislabelled:
  "fetchSheet env_key co_mislabelled ''doc'' ''Recruiters!A:J'' None = Inr al_tab"
  "fetchSheet env_key co_mislabelled ''doc'' ''Candidates!A:L'' None = Inr candidates_tab"
  "fetchSheet env_key co_mislabelled ''doc'' ''Clients!A:J'' None = Inr clients_tab"
  "fetchSheet env_key co_mislabelled ''doc'' ''Performance!A:D'' None = Inr \<lparr>sheet_values = None\<rparr>"
  by (simp_all add: fetchSheet_def fetchSheetViaServiceAccount_def getServiceAccountClient_def
        fetchSheetViaApiKey_def env_key_def co_mislabelled_def js_or_def Let_def)

lemma ex_targets:
  "target Recruiters (Some al_tab) = Candidates"
  "target Candidates (Some candidates_tab) = Candidates"
  "target Clients (Some clients_tab) = Clients"
  "target Performance (Some \<lparr>sheet_values = None\<rparr>) = Performance"
  by code_simp+

text \<open>
  The theorem of C10 where the recruiters tab and the candidates tab are both inferred to
  hold candidates.
\<close>

theorem later_tab_overwrites_witness:
  "target Recruiters (Some al_tab) = Candidates
   \<and> target Candidates (Some candidates_tab) = Candidates
   \<and> candidates (returned (importSheetsAndSave env_key co_mislabelled (\<lambda>_. True) cfg1 st_old))
       = parseCandidates candidates_tab
   \<and> store_after (importSheetsAndSave env_key co_mislabelled (\<lambda>_. True) cfg1 st_old) Candidates
       = parseCandidates candidates_tab"
proof -
  let ?tabs = "[(Recruiters, settled (fetchSheet env_key co_mislabelled (spreadsheetId cfg1)
                    (ranges cfg1 Recruiters) (apiKey cfg1))),
                (Candidates, settled (fetchSheet env_key co_mislabelled (spreadsheetId cfg1)
                    (ranges cfg1 Candidates) (apiKey cfg1))),
                (Clients, settled (fetchSheet env_key co_mislabelled (spreadsheetId cfg1)
                    (ranges cfg1 Clients) (apiKey cfg1))),
                (Performance, settled (fetchSheet env_key co_mislabelled (spreadsheetId cfg1)
                    (ranges cfg1 Performance) (apiKey cfg1)))]"
  have tabs: "?tabs = [(Recruiters, Some al_tab)] @ (Candidates, Some candidates_tab)
                # [(Clients, Some clients_tab), (Performance, Some \<lparr>sheet_values = None\<rparr>)]"
    by (simp add: cfg1_def fetch_mislabelled settled_def)
  have post: "\<forall>(m, resp)\<in>set [(Clients, Some clients_tab), (Performance, Some \<lparr>sheet_values = None\<rparr>)].
                resp = None \<or> target m resp \<noteq> Candidates"
    by (simp add: ex_targets)
  note t = later_tab_overwrites[OF refl, where k = Candidates and ev = env_key and co = co_mislabelled
             and cfg = cfg1 and ok = "\<lambda>_. True" and st = st_old]
  have ret: "field_of Candidates (returned (importSheetsAndSave env_key co_mislabelled (\<lambda>_. True) cfg1 st_old))
               = parse_as Candidates candidates_tab"
    using t tabs post ex_targets(2) by blast
  have sto: "store_after (importSheetsAndSave env_key co_mislabelled (\<lambda>_. True) cfg1 st_old) Candidates
               = field_of Candidates (returned (importSheetsAndSave env_key co_mislabelled (\<lambda>_. True) cfg1 st_old))"
    using t by simp
  show ?thesis
    using ret sto ex_targets by (simp add: field_of_def parse_as_def)
qed

section \<open>The CSV parser: reading back what was written\<close>

lemma csv_lines_quoted_run:
  "CHR 0x22 \<notin> set u \<Longrightarrow> CHR 0x0D \<notin> set u \<Longrightarrow>
   csv_lines (u @ rest) cur True = csv_lines rest (cur @ u) True"
  by (induction u arbitrary: cur) auto

lemma csv_lines_bare_run:
  "CHR 0x22 \<notin> set u \<Longrightarrow> CHR 0x0D \<notin> set u \<Longrightarrow> CHR 0x0A \<notin> set u \<Longrightarrow>
   csv_lines (u @ rest) cur q = csv_lines rest (cur @ u) q"
  by (induction u arbitrary: cur) auto

lemma double_quotes_id: "CHR 0x22 \<notin> set v \<Longrightarrow> double_quotes v = v"
  by (induction v) (auto simp: double_quotes_def)

lemma csv_lines_field:
  assumes nq: "CHR 0x22 \<notin> set v" and ncr: "CHR 0x0D \<notin> set v"
      and nx: "rest = [] \<or> hd rest \<noteq> CHR 0x22"
  shows "csv_lines (csv_field v @ rest) cur False = csv_lines rest (cur @ csv_field v) False"
proof (cases "needs_quoting v")
  case False
  then have "CHR 0x0A \<notin> set v" by (auto simp: needs_quoting_def)
  then show ?thesis
    using False nq ncr by (simp add: csv_field_def csv_lines_bare_run)
next
  case True
  then obtain c cs where v: "v = c # cs" by (cases v) (auto simp: needs_quoting_def)
  have c: "c \<noteq> CHR 0x22" using nq v by auto
  have open_q: "csv_lines (CHR 0x22 # v @ CHR 0x22 # rest) cur False
          = csv_lines (v @ CHR 0x22 # rest) (cur @ [CHR 0x22]) True"
    using c by (simp add: v)
  have close_q: "csv_lines (CHR 0x22 # rest) (cur @ [CHR 0x22] @ v) True
          = csv_lines rest (cur @ [CHR 0x22] @ v @ [CHR 0x22]) False"
    using nx by (cases rest) auto
  show ?thesis
    using True open_q close_q csv_lines_quoted_run[OF nq ncr, of "CHR 0x22 # rest" "cur @ [CHR 0x22]"]
    by (simp add: csv_field_def double_quotes_id[OF nq])
qed

lemma csv_lines_record:
  assumes "\<forall>v\<in>set vs. CHR 0x22 \<notin> set v \<and> CHR 0x0D \<notin> set v"
      and "rest = [] \<or> hd rest \<noteq> CHR 0x22"
  shows "csv_lines (csv_record vs @ rest) cur False = csv_lines rest (cur @ csv_record vs) False"
  using assms
proof (induction vs arbitrary: cur rule: csv_record.induct)
  case 1
  then show ?case by simp
next
  case (2 v)
  then show ?case using csv_lines_field[of v rest cur] by simp
next
  case (3 v w vs)
  have f: "csv_lines (csv_field v @ (CHR '','' # csv_record (w # vs) @ rest)) cur False
             = csv_lines (CHR '','' # csv_record (w # vs) @ rest) (cur @ csv_field v) False"
    using csv_lines_field[of v "CHR '','' # csv_record (w # vs) @ rest" cur] "3.prems"(1) by simp
  have g: "csv_lines (CHR '','' # csv_record (w # vs) @ rest) (cur @ csv_field v) False
             = csv_lines (csv_record (w # vs) @ rest) (cur @ csv_field v @ [CHR '','']) False"
    by simp
  have h: "csv_lines (csv_record (w # vs) @ rest) (cur @ csv_field v @ [CHR '','']) False
             = csv_lines rest ((cur @ csv_field v @ [CHR '','']) @ csv_record (w # vs)) False"
    using "3.IH"[of "cur @ csv_field v @ [CHR '','']"] "3.prems" by simp
  show ?case using f g h by simp
qed

lemma csv_lines_serialized:
  assumes "\<forall>v\<in>set H. CHR 0x22 \<notin> set v \<and> CHR 0x0D \<notin> set v"
      and "\<forall>v\<in>set R. CHR 0x22 \<notin> set v \<and> CHR 0x0D \<notin> set v"
  shows "csv_lines (serializeAsCsv H R) [] False = [csv_record H, csv_record R]"
proof -
  have a: "csv_lines (csv_record H @ (CHR 0x0D # CHR 0x0A # csv_record R @ [CHR 0x0D, CHR 0x0A])) [] False
         = csv_lines (CHR 0x0D # CHR 0x0A # csv_record R @ [CHR 0x0D, CHR 0x0A]) (csv_record H) False"
    using csv_lines_record[OF assms(1), of "CHR 0x0D # CHR 0x0A # csv_record R @ [CHR 0x0D, CHR 0x0A]" "[]"]
    by simp
  have b: "csv_lines (csv_record R @ [CHR 0x0D, CHR 0x0A]) [] False
         = csv_lines [CHR 0x0D, CHR 0x0A] (csv_record R) False"
    using csv_lines_record[OF assms(2), of "[CHR 0x0D, CHR 0x0A]" "[]"] by simp
  show ?thesis
    using a b by (simp add: serializeAsCsv_def)
qed

lemma split_fields_quoted_run:
  "CHR 0x22 \<notin> set u \<Longrightarrow> split_fields (u @ rest) field True = split_fields rest (field @ u) True"
  by (induction u arbitrary: field) auto

lemma split_fields_bare_run:
  "CHR 0x22 \<notin> set u \<Longrightarrow> CHR '','' \<notin> set u \<Longrightarrow>
   split_fields (u @ rest) field q = split_fields rest (field @ u) q"
  by (induction u arbitrary: field) auto

lemma split_fields_field:
  assumes nq: "CHR 0x22 \<notin> set v"
      and nx: "rest = [] \<or> hd rest \<noteq> CHR 0x22"
  shows "split_fields (csv_field v @ rest) field False = split_fields rest (field @ v) False"
proof (cases "needs_quoting v")
  case False
  then have "CHR '','' \<notin> set v" by (auto simp: needs_quoting_def)
  then show ?thesis
    using False nq by (simp add: csv_field_def split_fields_bare_run)
next
  case True
  have open_q: "split_fields (CHR 0x22 # v @ CHR 0x22 # rest) field False
          = split_fields (v @ CHR 0x22 # rest) field True"
    by (cases v) auto
  have close_q: "split_fields (CHR 0x22 # rest) (field @ v) True
          = split_fields rest (field @ v) False"
    using nx by (cases rest) auto
  show ?thesis
    using True open_q close_q split_fields_quoted_run[OF nq, of "CHR 0x22 # rest" field]
    by (simp add: csv_field_def double_quotes_id[OF nq])
qed

lemma split_fields_record:
  assumes "vs \<noteq> []" and "\<forall>v\<in>set vs. CHR 0x22 \<notin> set v"
  shows "split_fields (csv_record vs) field False = (field @ hd vs) # tl vs"
  using assms
proof (induction vs arbitrary: field rule: csv_record.induct)
  case 1
  then show ?case by simp
next
  case (2 v)
  then show ?case using split_fields_field[of v "[]" field] by simp
next
  case (3 v w vs)
  have f: "split_fields (csv_field v @ (CHR '','' # csv_record (w # vs))) field False
             = split_fields (CHR '','' # csv_record (w # vs)) (field @ v) False"
    using split_fields_field[of v "CHR '','' # csv_record (w # vs)" field] "3.prems" by simp
  have g: "split_fields (CHR '','' # csv_record (w # vs)) (field @ v) False
             = (field @ v) # split_fields (csv_record (w # vs)) [] False"
    by simp
  have h: "split_fields (csv_record (w # vs)) [] False = w # vs"
    using "3.IH"[of "[]"] "3.prems" by simp
  show ?case using f g h by simp
qed

lemma strip_quotes_id: "CHR 0x22 \<notin> set v \<Longrightarrow> strip_quotes v = v"
proof (cases v)
  case Nil
  then show ?thesis by (simp add: strip_quotes_def)
next
  case (Cons c cs)
  assume nq: "CHR 0x22 \<notin> set v"
  then have "last v \<noteq> CHR 0x22" using Cons last_in_set[of v] by auto
  moreover have "c \<noteq> CHR 0x22" using nq Cons by auto
  ultimately show ?thesis using Cons by (simp add: strip_quotes_def Let_def)
qed

lemma splitCsv_record:
  assumes "vs \<noteq> []" and "\<forall>v\<in>set vs. plain v"
  shows "splitCsv (csv_record vs) = vs"
proof -
  have nq: "\<forall>v\<in>set vs. CHR 0x22 \<notin> set v" using assms(2) by (simp add: plain_def)
  have "split_fields (csv_record vs) [] False = vs"
    using split_fields_record[OF assms(1) nq, of "[]"] assms(1) by simp
  moreover have "map (\<lambda>s. trim (strip_quotes s)) vs = vs"
    using assms(2) by (induction vs) (auto simp: plain_def strip_quotes_id)
  ultimately show ?thesis by (simp add: splitCsv_def)
qed

lemma obj_insert_index_keys: "fst ` set (obj_insert_index r k v) = insert k (fst ` set r)"
proof (induction r)
  case Nil
  then show ?case by simp
next
  case (Cons p r)
  obtain k' v' where p: "p = (k', v')" by (cases p)
  show ?case
  proof (cases "is_array_index k' \<and> digits_val k' < digits_val k")
    case True
    then have "obj_insert_index (p # r) k v = (k', v') # obj_insert_index r k v"
      by (simp add: p)
    then show ?thesis using Cons.IH by (auto simp: p)
  next
    case False
    then have "obj_insert_index (p # r) k v = (k, v) # (k', v') # r"
      by (auto simp: p)
    then show ?thesis by (auto simp: p)
  qed
qed

lemma obj_insert_index_map_of:
  "k \<notin> fst ` set r \<Longrightarrow> map_of (obj_insert_index r k v) = (map_of r)(k \<mapsto> v)"
  by (induction r) (auto simp: fun_upd_twist)

lemma obj_insert_index_distinct:
  "k \<notin> fst ` set r \<Longrightarrow> distinct (map fst r) \<Longrightarrow> distinct (map fst (obj_insert_index r k v))"
proof (induction r)
  case Nil
  then show ?case by simp
next
  case (Cons p r)
  obtain k' v' where p: "p = (k', v')" by (cases p)
  have "k' \<notin> fst ` set (obj_insert_index r k v)"
    using Cons.prems by (auto simp: obj_insert_index_keys p)
  then show ?case using Cons by (auto simp: p)
qed

lemma map_of_snoc_fresh:
  "k \<notin> fst ` set r \<Longrightarrow> map_of (r @ [(k, v)]) = (map_of r)(k \<mapsto> v)"
  by (induction r) (auto simp: fun_upd_twist)

lemma obj_set_new:
  assumes "k \<noteq> ''__proto__''" and "k \<notin> fst ` set r" and "distinct (map fst r)"
  shows "map_of (obj_set r k v) = (map_of r)(k \<mapsto> v)"
    and "fst ` set (obj_set r k v) = insert k (fst ` set r)"
    and "distinct (map fst (obj_set r k v))"
proof -
  show "map_of (obj_set r k v) = (map_of r)(k \<mapsto> v)"
    using assms by (simp add: obj_set_def obj_insert_index_map_of map_of_snoc_fresh del: map_of_append)
  show "fst ` set (obj_set r k v) = insert k (fst ` set r)"
    using assms by (simp add: obj_set_def obj_insert_index_keys)
  show "distinct (map fst (obj_set r k v))"
    using assms by (simp add: obj_set_def obj_insert_index_distinct)
qed

lemma obj_set_fresh:
  "k \<noteq> ''__proto__'' \<Longrightarrow> k \<notin> fst ` set r \<Longrightarrow> \<not> is_array_index k \<Longrightarrow>
   obj_set r k v = r @ [(k, v)]"
  by (simp add: obj_set_def)

lemma row_of_snoc:
  "length hs < length R \<Longrightarrow> row_of (hs @ [h]) R = obj_set (row_of hs R) h (R ! length hs)"
  by (simp add: row_of_def enumerate_append_eq cell_def)

lemma zip_snoc_nth:
  assumes len: "length hs < length R"
  shows "zip (hs @ [h]) R = zip hs R @ [(h, R ! length hs)]"
proof -
  have R: "R = take (length hs) R @ (R ! length hs) # drop (Suc (length hs)) R"
    using len by (rule id_take_nth_drop)
  have lt: "length hs = length (take (length hs) R)" using len by simp
  have z1: "zip hs (take (length hs) R @ (R ! length hs) # drop (Suc (length hs)) R)
              = zip hs (take (length hs) R)"
    using zip_append[OF lt, of "[]" "(R ! length hs) # drop (Suc (length hs)) R"] by simp
  have z2: "zip (hs @ [h]) (take (length hs) R @ (R ! length hs) # drop (Suc (length hs)) R)
              = zip hs (take (length hs) R) @ [(h, R ! length hs)]"
    using zip_append[OF lt, of "[h]" "(R ! length hs) # drop (Suc (length hs)) R"] by simp
  show ?thesis using z1 z2 R by metis
qed

lemma row_of_binds:
  "distinct H \<Longrightarrow> ''__proto__'' \<notin> set H \<Longrightarrow> length H \<le> length R \<Longrightarrow>
   map_of (row_of H R) = map_of (zip H R) \<and> fst ` set (row_of H R) = set H
   \<and> distinct (map fst (row_of H R))"
proof (induction H rule: rev_induct)
  case Nil
  then show ?case by (simp add: row_of_def)
next
  case (snoc h hs)
  have len: "length hs < length R" using snoc.prems(3) by simp
  have IH: "map_of (row_of hs R) = map_of (zip hs R)" "fst ` set (row_of hs R) = set hs"
      "distinct (map fst (row_of hs R))"
    using snoc by simp_all
  have h: "h \<noteq> ''__proto__''" "h \<notin> fst ` set (row_of hs R)"
    using snoc.prems(1,2) IH(2) by auto
  note S = obj_set_new[OF h IH(3), of "R ! length hs"]
  have fresh: "h \<notin> fst ` set (zip hs R)"
    using snoc.prems(1) by (auto dest: set_zip_leftD)
  have m: "map_of (zip (hs @ [h]) R) = (map_of (zip hs R))(h \<mapsto> R ! length hs)"
    unfolding zip_snoc_nth[OF len] using fresh by (rule map_of_snoc_fresh)
  show ?case
    unfolding row_of_snoc[OF len] using S IH m by simp
qed

lemma row_of_distinct:
  "distinct H \<Longrightarrow> ''__proto__'' \<notin> set H \<Longrightarrow> \<forall>h\<in>set H. \<not> is_array_index h \<Longrightarrow>
   length H \<le> length R \<Longrightarrow> row_of H R = zip H R"
proof (induction H rule: rev_induct)
  case Nil
  then show ?case by (simp add: row_of_def)
next
  case (snoc h hs)
  have len: "length hs < length R" using snoc.prems(4) by simp
  have IH: "row_of hs R = zip hs R" using snoc by simp
  have fresh: "h \<notin> fst ` set (zip hs R)"
    using snoc.prems(1) by (auto dest: set_zip_leftD)
  have h: "h \<noteq> ''__proto__''" "\<not> is_array_index h" using snoc.prems(2,3) by auto
  show ?case
    unfolding row_of_snoc[OF len] IH zip_snoc_nth[OF len] using h(1) fresh h(2) by (rule obj_set_fresh)
qed

lemma trim_empty_iff: "trim s = [] \<longleftrightarrow> (\<forall>c\<in>set s. is_space c)"
proof
  assume "trim s = []"
  then have a: "dropWhile is_space (rev (dropWhile is_space s)) = []" by (simp add: trim_def)
  have "dropWhile is_space s = []"
  proof (rule ccontr)
    assume ne: "dropWhile is_space s \<noteq> []"
    then have "\<not> is_space (hd (dropWhile is_space s))" by (rule hd_dropWhile)
    moreover have "hd (dropWhile is_space s) \<in> set (rev (dropWhile is_space s))"
      using ne by simp
    ultimately show False using a by (auto simp: dropWhile_eq_Nil_conv)
  qed
  then show "\<forall>c\<in>set s. is_space c" by (simp only: dropWhile_eq_Nil_conv)
next
  assume "\<forall>c\<in>set s. is_space c"
  then show "trim s = []" by (auto simp: trim_def dest: set_dropWhileD)
qed

lemma comma_not_space: "\<not> is_space CHR '',''" and quote_not_space: "\<not> is_space (CHR 0x22)"
  by (simp_all add: is_space_def)

lemma csv_record_two_has_comma: "CHR '','' \<in> set (csv_record (v # w # vs))"
  by simp

lemma csv_record_not_blank:
  assumes "R \<noteq> []" and "R \<noteq> [[]]" and "\<forall>v\<in>set R. plain v"
  shows "trim (csv_record R) \<noteq> []"
proof (cases R)
  case Nil
  then show ?thesis using assms(1) by simp
next
  case (Cons v vs)
  show ?thesis
  proof (cases vs)
    case Nil
    have v: "v \<noteq> []" "trim v = v" using assms Cons Nil by (auto simp: plain_def)
    show ?thesis
    proof (cases "needs_quoting v")
      case True
      then have "CHR 0x22 \<in> set (csv_record R)" by (simp add: Cons Nil csv_field_def)
      then show ?thesis using quote_not_space trim_empty_iff by blast
    next
      case False
      then show ?thesis using v by (simp add: Cons Nil csv_field_def)
    qed
  next
    case (Cons w ws)
    then have "CHR '','' \<in> set (csv_record R)" using \<open>R = v # vs\<close> by simp
    then show ?thesis using comma_not_space trim_empty_iff by blast
  qed
qed

text \<open>
  Claim C6, amended. Let \<open>H\<close> be a non-empty header row of distinct names, none of them
  \<open>__proto__\<close>, and \<open>R\<close> a row of the same length other than the single empty field, where
  no name and no value contains a double quote or a carriage return or has white space at
  either end. Parsing the RFC 4180 text of \<open>H\<close> and \<open>R\<close> gives exactly one row; its keys
  are the names of \<open>H\<close>, each once and each bound to its value in \<open>R\<close>, and they are in the
  order of \<open>H\<close> when no name is an array index. The values may contain commas and line
  feeds.
\<close>

theorem csv_round_trip_plain:
  assumes "H \<noteq> []" and "length R = length H" and "distinct H" and "''__proto__'' \<notin> set H"
      and "\<forall>h\<in>set H. plain h" and "\<forall>v\<in>set R. plain v" and "R \<noteq> [[]]"
  shows "\<exists>row. parseCsvToObjects (serializeAsCsv H R) = [row]
           \<and> set (map fst row) = set H \<and> distinct (map fst row)
           \<and> (\<forall>j<length H. map_of row (H ! j) = Some (R ! j))
           \<and> ((\<forall>h\<in>set H. \<not> is_array_index h) \<longrightarrow> row = zip H R)"
proof -
  have Rne: "R \<noteq> []" using assms(1,2) by auto
  have qH: "\<forall>v\<in>set H. CHR 0x22 \<notin> set v \<and> CHR 0x0D \<notin> set v"
    using assms(5) by (simp add: plain_def)
  have qR: "\<forall>v\<in>set R. CHR 0x22 \<notin> set v \<and> CHR 0x0D \<notin> set v"
    using assms(6) by (simp add: plain_def)
  have lines: "csv_lines (serializeAsCsv H R) [] False = [csv_record H, csv_record R]"
    using csv_lines_serialized[OF qH qR] .
  have header: "map trim (splitCsv (csv_record H)) = H"
    using splitCsv_record[OF assms(1,5)] assms(5) by (simp add: plain_def map_idI)
  have cols: "splitCsv (csv_record R) = R"
    using splitCsv_record[OF Rne assms(6)] .
  have keep: "trim (csv_record R) \<noteq> []"
    using csv_record_not_blank[OF Rne assms(7,6)] .
  have parsed: "parseCsvToObjects (serializeAsCsv H R) = [row_of H R]"
    by (simp add: parseCsvToObjects_def lines header cols keep)
  have len: "length H \<le> length R" using assms(2) by simp
  note B = row_of_binds[OF assms(3,4) len]
  have keys: "set (map fst (row_of H R)) = set H" using B by simp
  have dist: "distinct (map fst (row_of H R))" using B by simp
  have binds: "\<forall>j<length H. map_of (row_of H R) (H ! j) = Some (R ! j)"
  proof (intro allI impI)
    fix j assume "j < length H"
    then have "map_of (zip H R) (H ! j) = Some (R ! j)"
      using assms(2,3) by (simp add: map_of_zip_nth)
    then show "map_of (row_of H R) (H ! j) = Some (R ! j)" using B by simp
  qed
  have order: "(\<forall>h\<in>set H. \<not> is_array_index h) \<longrightarrow> row_of H R = zip H R"
    using row_of_distinct[OF assms(3,4) _ len] by blast
  show ?thesis using parsed keys dist binds order by blast
qed

text \<open>The theorem of C6 at a row with a value that holds a comma and a line feed.\<close>

theorem csv_round_trip_plain_witness:
  "parseCsvToObjects
     (serializeAsCsv [''name'', ''note''] [''Jane'', [CHR ''a'', CHR '','', CHR ''b'', CHR 0x0A, CHR ''c'']])
   = [[(''name'', ''Jane''), (''note'', [CHR ''a'', CHR '','', CHR ''b'', CHR 0x0A, CHR ''c''])]]"
proof -
  have p: "\<forall>h\<in>set [''name'', ''note'']. plain h"
          "\<forall>v\<in>set [''Jane'', [CHR ''a'', CHR '','', CHR ''b'', CHR 0x0A, CHR ''c'']]. plain v"
    by (simp_all add: plain_def trim_def is_space_def)
  have i: "\<forall>h\<in>set [''name'', ''note'']. \<not> is_array_index h"
    by (simp add: is_array_index_def is_digit_def)
  show ?thesis
    using csv_round_trip_plain[of "[''name'', ''note'']"
            "[''Jane'', [CHR ''a'', CHR '','', CHR ''b'', CHR 0x0A, CHR ''c'']]"] p i
    by auto
qed

text \<open>
  Claim C6, as stated, fails: \<open>splitCsv\<close> trims every field, so a value that starts with a
  space comes back without it.
\<close>

theorem csv_round_trip_counterexample:
  "parseCsvToObjects (serializeAsCsv [''note''] ['' b'']) \<noteq> [zip [''note''] ['' b'']]"
  by code_simp

text \<open>
  A value with a double quote inside does not come back either: the first loop already
  turns the doubled quote into one, which \<open>splitCsv\<close> then reads as the end of the quoted
  part.
\<close>

lemma csv_doubled_quote_lost:
  "parseCsvToObjects (serializeAsCsv [''note''] [[CHR ''a'', CHR 0x22, CHR ''b'']])
     = [[(''note'', ''ab'')]]"
  by code_simp

text \<open>
  The two ways in which the row object departs from the header: a column named
  \<open>__proto__\<close> is not stored, and a column whose name is an array index is listed first.
\<close>

lemma csv_proto_column_lost:
  "parseCsvToObjects (serializeAsCsv [''__proto__'', ''a''] [''x'', ''y'']) = [[(''a'', ''y'')]]"
  by code_simp

lemma csv_index_column_first:
  "parseCsvToObjects (serializeAsCsv [''b'', ''1''] [''x'', ''y'']) = [[(''1'', ''y''), (''b'', ''x'')]]"
  by code_simp

lemma is_array_index_examples:
  "is_array_index ''0''" "is_array_index ''17''" "is_array_index ''4294967294''"
  "\<not> is_array_index ''4294967295''" "\<not> is_array_index ''01''" "\<not> is_array_index []"
  "\<not> is_array_index ''name''"
  by code_simp+

section \<open>Numbers: rounding, printing and reading back\<close>

lemma bitlen_rat_bounds:
  assumes "0 < a"
  shows "(2::rat) powi (bitlen a - 1) \<le> of_int a" and "of_int a < (2::rat) powi (bitlen a)"
proof -
  have pos: "0 < bitlen a"
    using assms bitlen_eq_zero_iff[of a] bitlen_nonneg[of a] by linarith
  have b: "2 ^ nat (bitlen a - 1) \<le> a" "a < 2 ^ nat (bitlen a)"
    using bitlen_bounds[OF assms] by auto
  have "(of_int (2 ^ nat (bitlen a - 1)) :: rat) \<le> of_int a"
    using b(1) by (simp only: of_int_le_iff)
  then show "(2::rat) powi (bitlen a - 1) \<le> of_int a"
    using pos by (simp add: power_int_def)
  have "(of_int a :: rat) < of_int (2 ^ nat (bitlen a))"
    using b(2) by (simp only: of_int_less_iff)
  then show "of_int a < (2::rat) powi (bitlen a)"
    using pos by (simp add: power_int_def)
qed

lemma binary_exponent_test:
  assumes "0 < a" "0 < b"
  shows "(if 0 \<le> e0 then 2 ^ nat e0 * b \<le> a else b \<le> 2 ^ nat (- e0) * a)
           \<longleftrightarrow> (2::rat) powi e0 \<le> of_int a / of_int b"
proof (cases "0 \<le> e0")
  case True
  have "(2 ^ nat e0 * b \<le> a) \<longleftrightarrow> ((of_int (2 ^ nat e0 * b) :: rat) \<le> of_int a)"
    by (simp only: of_int_le_iff)
  also have "\<dots> \<longleftrightarrow> (2::rat) ^ nat e0 * of_int b \<le> of_int a" by simp
  also have "\<dots> \<longleftrightarrow> (2::rat) ^ nat e0 \<le> of_int a / of_int b"
    using assms(2) by (simp add: pos_le_divide_eq)
  finally show ?thesis using True by (simp add: power_int_def)
next
  case False
  have "(b \<le> 2 ^ nat (- e0) * a) \<longleftrightarrow> ((of_int b :: rat) \<le> of_int (2 ^ nat (- e0) * a))"
    by (simp only: of_int_le_iff)
  also have "\<dots> \<longleftrightarrow> (of_int b :: rat) \<le> 2 ^ nat (- e0) * of_int a" by simp
  also have "\<dots> \<longleftrightarrow> 1 / (2::rat) ^ nat (- e0) \<le> of_int a / of_int b"
    using assms(2) by (simp add: field_simps)
  finally show ?thesis using False by (simp add: power_int_def field_simps)
qed

lemma binary_exponent_bounds:
  assumes "0 < a" "0 < b"
  shows "(2::rat) powi (binary_exponent a b) \<le> of_int a / of_int b"
    and "of_int a / of_int b < (2::rat) powi (binary_exponent a b + 1)"
proof -
  let ?x = "of_int a / of_int b :: rat"
  let ?e0 = "bitlen a - bitlen b"
  have bpos: "(0::rat) < of_int b" using assms(2) by simp
  note A = bitlen_rat_bounds[OF assms(1)]
  note B = bitlen_rat_bounds[OF assms(2)]
  have up: "?x < 2 powi (?e0 + 1)"
  proof -
    have "?x < 2 powi (bitlen a) / of_int b"
      using A(2) bpos by (simp add: divide_strict_right_mono)
    also have "\<dots> \<le> 2 powi (bitlen a) / 2 powi (bitlen b - 1)"
    proof (intro divide_left_mono)
      show "2 powi (bitlen b - 1) \<le> rat_of_int b" using B(1) .
      show "(0::rat) \<le> 2 powi bitlen a" by simp
      show "0 < rat_of_int b * 2 powi (bitlen b - 1)" using bpos by (intro mult_pos_pos) simp_all
    qed
    also have "\<dots> = 2 powi (?e0 + 1)"
      by (simp add: power_int_diff power_int_add algebra_simps)
    finally show ?thesis .
  qed
  have lo: "2 powi (?e0 - 1) < ?x"
  proof -
    have "(2::rat) powi (?e0 - 1) = 2 powi (bitlen a - 1) / 2 powi (bitlen b)"
      by (simp add: power_int_diff power_int_add algebra_simps)
    also have "\<dots> < 2 powi (bitlen a - 1) / of_int b"
    proof (intro divide_strict_left_mono)
      show "rat_of_int b < 2 powi bitlen b" using B(2) .
      show "(0::rat) < 2 powi (bitlen a - 1)" by simp
      show "0 < 2 powi bitlen b * rat_of_int b" using bpos by (intro mult_pos_pos) simp_all
    qed
    also have "\<dots> \<le> ?x"
      using A(1) bpos by (simp add: divide_right_mono)
    finally show ?thesis .
  qed
  have test: "binary_exponent a b = (if (2::rat) powi ?e0 \<le> ?x then ?e0 else ?e0 - 1)"
    using binary_exponent_test[OF assms, of ?e0] by (simp add: binary_exponent_def Let_def)
  show "(2::rat) powi (binary_exponent a b) \<le> ?x"
    using test lo by (auto simp: not_le)
  show "?x < (2::rat) powi (binary_exponent a b + 1)"
    using test up by (auto simp: not_le)
qed

lemma binade_unique:
  assumes "(2::rat) powi e \<le> x" "x < 2 powi (e + 1)" "(2::rat) powi e' \<le> x" "x < 2 powi (e' + 1)"
  shows "e = e'"
proof -
  have a: "(2::rat) powi e < 2 powi (e' + 1)" using assms(1,4) by simp
  have 1: "e < e' + 1"
  proof (rule ccontr)
    assume "\<not> e < e' + 1"
    then have "(2::rat) powi (e' + 1) \<le> 2 powi e" by (intro power_int_increasing) simp_all
    then show False using a by simp
  qed
  have b: "(2::rat) powi e' < 2 powi (e + 1)" using assms(3,2) by simp
  have 2: "e' < e + 1"
  proof (rule ccontr)
    assume "\<not> e' < e + 1"
    then have "(2::rat) powi (e + 1) \<le> 2 powi e'" by (intro power_int_increasing) simp_all
    then show False using b by simp
  qed
  show ?thesis using 1 2 by simp
qed

lemma div_half_even_exact: "0 < b \<Longrightarrow> div_half_even (m * b) b = m"
  by (simp add: div_half_even_def Let_def)

lemma div_half_even_lower:
  assumes "0 < b" "L * b \<le> a"
  shows "L \<le> div_half_even a b"
proof -
  have "(L * b) div b \<le> a div b" using assms by (intro zdiv_mono1) simp_all
  then have "L \<le> a div b" using assms(1) by simp
  then show ?thesis by (auto simp: div_half_even_def Let_def)
qed

lemma div_half_even_upper:
  assumes "0 < b" "a \<le> U * b"
  shows "div_half_even a b \<le> U"
proof -
  have "a div b \<le> (U * b) div b" using assms by (intro zdiv_mono1) simp_all
  then have q: "a div b \<le> U" using assms(1) by simp
  show ?thesis
  proof (cases "a div b = U")
    case True
    have "a = b * (a div b) + a mod b" by simp
    then have "a = b * U + a mod b" using True by simp
    then have "a mod b \<le> 0" using assms(2) by (simp add: algebra_simps)
    moreover have "0 \<le> a mod b" using assms(1) by simp
    ultimately have "a mod b = 0" by simp
    then show ?thesis using True assms(1) by (simp add: div_half_even_def Let_def)
  next
    case False
    then have "a div b + 1 \<le> U" using q by simp
    then show ?thesis using q by (auto simp: div_half_even_def Let_def)
  qed
qed

lemma round_scaled_ratio:
  assumes "0 < b"
  shows "\<exists>N D. 0 < D \<and> round_scaled a b qe = div_half_even N D
              \<and> (of_int N :: rat) = of_int a / of_int b * 2powi (- qe) * of_int D"
proof (cases "0 \<le> qe")
  case True
  have "(of_int a :: rat) = of_int a / of_int b * 2 powi (- qe) * of_int (b * 2 ^ nat qe)"
    using assms True by (simp add: power_int_def field_simps)
  moreover have "0 < b * 2 ^ nat qe" using assms by simp
  ultimately show ?thesis using True unfolding round_scaled_def by (intro exI[of _ a] exI[of _ "b * 2 ^ nat qe"]) simp
next
  case False
  have "(of_int (a * 2 ^ nat (- qe)) :: rat) = of_int a / of_int b * 2 powi (- qe) * of_int b"
    using assms False by (simp add: power_int_def field_simps)
  then show ?thesis using False assms unfolding round_scaled_def
    by (intro exI[of _ "a * 2 ^ nat (- qe)"] exI[of _ b]) simp
qed

lemma round_scaled_exact:
  assumes "0 < b" "(of_int a :: rat) / of_int b = of_int m * 2 powi qe"
  shows "round_scaled a b qe = m"
proof -
  obtain N D where D: "0 < D" and r: "round_scaled a b qe = div_half_even N D"
    and N: "(of_int N :: rat) = of_int a / of_int b * 2 powi (- qe) * of_int D"
    using round_scaled_ratio[OF assms(1)] by blast
  have "(of_int N :: rat) = of_int m * (2 powi qe * 2 powi (- qe)) * of_int D"
    using N assms(2) by (simp add: algebra_simps)
  also have "\<dots> = of_int (m * D)" by (simp add: power_int_minus)
  finally have "N = m * D" by (simp only: of_int_eq_iff)
  then show ?thesis using r D by (simp add: div_half_even_exact)
qed

lemma round_scaled_lower:
  assumes "0 < b" "of_int L * 2 powi qe \<le> (of_int a :: rat) / of_int b"
  shows "L \<le> round_scaled a b qe"
proof -
  obtain N D where D: "0 < D" and r: "round_scaled a b qe = div_half_even N D"
    and N: "(of_int N :: rat) = of_int a / of_int b * 2 powi (- qe) * of_int D"
    using round_scaled_ratio[OF assms(1)] by blast
  have "of_int L * 2 powi qe * (2 powi (- qe) * of_int D) \<le> (of_int a :: rat) / of_int b * (2 powi (- qe) * of_int D)"
    using assms(2) D by (intro mult_right_mono) simp_all
  then have "(of_int (L * D) :: rat) \<le> of_int N"
    using N by (simp add: power_int_minus algebra_simps)
  then have "L * D \<le> N" by (simp only: of_int_le_iff)
  then show ?thesis using r D by (simp add: div_half_even_lower)
qed

lemma round_scaled_upper:
  assumes "0 < b" "(of_int a :: rat) / of_int b \<le> of_int U * 2 powi qe"
  shows "round_scaled a b qe \<le> U"
proof -
  obtain N D where D: "0 < D" and r: "round_scaled a b qe = div_half_even N D"
    and N: "(of_int N :: rat) = of_int a / of_int b * 2 powi (- qe) * of_int D"
    using round_scaled_ratio[OF assms(1)] by blast
  have "(of_int a :: rat) / of_int b * (2 powi (- qe) * of_int D) \<le> of_int U * 2 powi qe * (2 powi (- qe) * of_int D)"
    using assms(2) D by (intro mult_right_mono) simp_all
  then have "(of_int N :: rat) \<le> of_int (U * D)"
    using N by (simp add: power_int_minus algebra_simps)
  then have "N \<le> U * D" by (simp only: of_int_le_iff)
  then show ?thesis using r D by (simp add: div_half_even_upper)
qed

lemma to_double_pos_value:
  "to_double_pos a b =
     (let qe = max (binary_exponent a b) (- 1022) - 52; m = round_scaled a b qe
      in if 971 < qe \<or> qe = 971 \<and> 2 ^ 53 \<le> m then PosInf
         else Fin (of_int m * 2 powi qe))"
proof -
  define qe where "qe = max (binary_exponent a b) (- 1022) - 52"
  define m where "m = round_scaled a b qe"
  have v: "(if 0 \<le> qe then Fin (of_int (m * 2 ^ nat qe))
            else Fin (of_int m / of_int (2 ^ nat (- qe)))) = Fin (of_int m * 2 powi qe)"
    by (simp add: power_int_def field_simps)
  have "to_double_pos a b =
          (if 971 < qe \<or> qe = 971 \<and> 2 ^ 53 \<le> m then PosInf
           else if 0 \<le> qe then Fin (of_int (m * 2 ^ nat qe))
           else Fin (of_int m / of_int (2 ^ nat (- qe))))"
    unfolding to_double_pos_def qe_def m_def Let_def ..
  also have "\<dots> = (if 971 < qe \<or> qe = 971 \<and> 2 ^ 53 \<le> m then PosInf
                      else Fin (of_int m * 2 powi qe))"
    using v by simp
  finally show ?thesis unfolding qe_def m_def Let_def .
qed

lemma powi_shift: "e = q + int k \<Longrightarrow> (2::rat) powi e = 2 ^ k * 2 powi q"
  by (simp add: power_int_add mult.commute)

lemma powi_mono: "e \<le> e' \<Longrightarrow> (2::rat) powi e \<le> 2 powi e'"
  by (intro power_int_increasing) simp_all

lemma powi_less_imp: "(2::rat) powi e < 2 powi e' \<Longrightarrow> e < e'"
  using powi_mono[of e' e] by (cases "e < e'") auto

lemma scale_le: "(of_int m :: rat) \<le> of_int n \<Longrightarrow> of_int m * 2 powi q \<le> of_int n * (2::rat) powi q"
  by (intro mult_right_mono) simp_all

lemma scale_less: "(of_int m :: rat) < of_int n \<Longrightarrow> of_int m * 2 powi q < of_int n * (2::rat) powi q"
  by (intro mult_strict_right_mono) simp_all

lemma to_double_pos_binary64:
  assumes a: "0 < a" and b: "0 < b" and r: "to_double_pos a b = Fin v"
  shows "v = 0 \<or> is_binary64 v"
proof -
  define e where "e = binary_exponent a b"
  define qe where "qe = max e (- 1022) - 52"
  define m where "m = round_scaled a b qe"
  define x :: rat where "x = of_int a / of_int b"
  have xl: "(2::rat) powi e \<le> x" and xu: "x < 2 powi (e + 1)"
    using binary_exponent_bounds[OF a b] by (simp_all add: e_def x_def)
  have val: "to_double_pos a b =
      (if 971 < qe \<or> qe = 971 \<and> 2 ^ 53 \<le> m then PosInf else Fin (of_int m * 2 powi qe))"
    unfolding to_double_pos_value qe_def m_def e_def Let_def ..
  have noov: "\<not> (971 < qe \<or> qe = 971 \<and> 2 ^ 53 \<le> m)"
    using val r by (auto split: if_splits)
  have v: "v = of_int m * 2 powi qe" using val r noov by (auto split: if_splits)
  have xpos: "0 \<le> x" using a b by (simp add: x_def)
  have m0: "0 \<le> m"
    using round_scaled_lower[OF b, of 0 qe a] xpos by (simp add: m_def x_def)
  have "(2::rat) powi (e + 1) \<le> 2 powi (qe + 53)"
    by (rule powi_mono) (simp add: qe_def)
  also have "(2::rat) powi (qe + 53) = 2 ^ 53 * 2 powi qe"
    by (rule powi_shift) simp
  finally have "x \<le> of_int (2 ^ 53) * 2 powi qe" using xu by simp
  then have m53: "m \<le> 2 ^ 53"
    using round_scaled_upper[OF b, of a "2 ^ 53" qe] by (simp add: m_def x_def)
  show ?thesis
  proof (cases "- 1022 \<le> e")
    case True
    then have qe: "qe = e - 52" by (simp add: qe_def)
    have qlo: "- 1074 \<le> qe" using True qe by simp
    have qhi: "qe \<le> 971" using noov by simp
    have "(2::rat) powi e = 2 ^ 52 * 2 powi qe"
      by (rule powi_shift) (simp add: qe)
    then have "of_int (2 ^ 52) * 2 powi qe \<le> x" using xl by simp
    then have m52: "2 ^ 52 \<le> m"
      using round_scaled_lower[OF b, of "2 ^ 52" qe a] by (simp add: m_def x_def)
    show ?thesis
    proof (cases "m < 2 ^ 53")
      case True
      have "v = of_int m * 2 powi qe \<and> 0 < m \<and> m < 2 ^ 53 \<and> - 1074 \<le> qe \<and> qe \<le> 971
             \<and> (m < 2 ^ 52 \<longrightarrow> qe = - 1074)"
        using v m52 True qlo qhi by simp
      then have "is_binary64 v" unfolding is_binary64_def by blast
      then show ?thesis ..
    next
      case False
      then have m: "m = 2 ^ 53" using m53 by simp
      then have q970: "qe \<le> 970" using noov by auto
      have "(2::rat) powi (qe + 1) = 2 ^ 1 * 2 powi qe"
        by (rule powi_shift) simp
      then have "v = of_int (2 ^ 52) * 2 powi (qe + 1)"
        using v m by simp
      then have "v = of_int (2 ^ 52) * 2 powi (qe + 1) \<and> (0::int) < 2 ^ 52 \<and> (2::int) ^ 52 < 2 ^ 53
             \<and> - 1074 \<le> qe + 1 \<and> qe + 1 \<le> 971
             \<and> ((2::int) ^ 52 < 2 ^ 52 \<longrightarrow> qe + 1 = - 1074)"
        using q970 qlo by simp
      then have "is_binary64 v" unfolding is_binary64_def by blast
      then show ?thesis ..
    qed
  next
    case False
    then have qe: "qe = - 1074" by (simp add: qe_def)
    have "(2::rat) powi (e + 1) \<le> 2 powi (qe + 52)"
      by (rule powi_mono) (use False qe in simp)
    also have "(2::rat) powi (qe + 52) = 2 ^ 52 * 2 powi qe"
      by (rule powi_shift) simp
    finally have "x \<le> of_int (2 ^ 52) * 2 powi qe" using xu by simp
    then have m52: "m \<le> 2 ^ 52"
      using round_scaled_upper[OF b, of a "2 ^ 52" qe] by (simp add: m_def x_def)
    show ?thesis
    proof (cases "m = 0")
      case True
      then show ?thesis using v by simp
    next
      case False
      then have "0 < m" using m0 by simp
      then have "v = of_int m * 2 powi qe \<and> 0 < m \<and> m < 2 ^ 53 \<and> - 1074 \<le> qe \<and> qe \<le> 971
             \<and> (m < 2 ^ 52 \<longrightarrow> qe = - 1074)"
        using v m52 qe by simp
      then have "is_binary64 v" unfolding is_binary64_def by blast
      then show ?thesis ..
    qed
  qed
qed

lemma to_double_pos_idem:
  assumes v: "is_binary64 v" and A: "0 < A" and B: "0 < B"
      and AB: "(of_int A :: rat) / of_int B = v"
  shows "to_double_pos A B = Fin v"
proof -
  obtain m qe where vm: "v = of_int m * 2 powi qe" and m0: "0 < m" and m53: "m < 2 ^ 53"
      and q1: "- 1074 \<le> qe" and q2: "qe \<le> 971" and sub: "m < 2 ^ 52 \<longrightarrow> qe = - 1074"
    using v unfolding is_binary64_def by blast
  define e where "e = binary_exponent A B"
  have xl: "(2::rat) powi e \<le> v" and xu: "v < 2 powi (e + 1)"
    using binary_exponent_bounds[OF A B] AB by (simp_all add: e_def)
  have qe: "max e (- 1022) - 52 = qe"
  proof (cases "2 ^ 52 \<le> m")
    case True
    have "(of_int (2 ^ 52) :: rat) \<le> of_int m" using True by (simp only: of_int_le_iff)
    then have "of_int (2 ^ 52) * (2::rat) powi qe \<le> v" unfolding vm by (rule scale_le)
    moreover have "(2::rat) powi (qe + 52) = 2 ^ 52 * 2 powi qe" by (rule powi_shift) simp
    ultimately have l: "(2::rat) powi (qe + 52) \<le> v" by simp
    have "(of_int m :: rat) < of_int (2 ^ 53)" using m53 by (simp only: of_int_less_iff)
    then have "v < of_int (2 ^ 53) * (2::rat) powi qe" unfolding vm by (rule scale_less)
    moreover have "(2::rat) powi (qe + 52 + 1) = 2 ^ 53 * 2 powi qe" by (rule powi_shift) simp
    ultimately have u: "v < (2::rat) powi (qe + 52 + 1)" by simp
    have "e = qe + 52" using binade_unique[OF xl xu l u] .
    then show ?thesis using q1 by simp
  next
    case False
    then have q: "qe = - 1074" using sub by simp
    have "m < 2 ^ 52" using False by simp
    then have "(of_int m :: rat) < of_int (2 ^ 52)" by (simp only: of_int_less_iff)
    then have "v < of_int (2 ^ 52) * (2::rat) powi qe" unfolding vm by (rule scale_less)
    moreover have "(2::rat) powi (qe + 52) = 2 ^ 52 * 2 powi qe" by (rule powi_shift) simp
    ultimately have "v < (2::rat) powi (qe + 52)" by simp
    then have "(2::rat) powi e < 2 powi (qe + 52)" using xl by simp
    then have "e < qe + 52" by (rule powi_less_imp)
    then show ?thesis using q by simp
  qed
  have m: "round_scaled A B qe = m"
    using round_scaled_exact[OF B, of A m qe] AB vm by simp
  have noov: "\<not> (971 < qe \<or> qe = 971 \<and> 2 ^ 53 \<le> m)" using q2 m53 by simp
  show ?thesis
    unfolding to_double_pos_value Let_def e_def[symmetric] qe m
    using noov vm by simp
qed

lemma digit_char:
  assumes "0 \<le> d" "d < 10"
  shows "is_digit (char_of (48 + d :: int))" and "digit_val (char_of (48 + d :: int)) = d"
proof -
  have "(48 + d) mod 256 = 48 + d" using assms by simp
  then have "(of_char (char_of (48 + d :: int)) :: int) = 48 + d" by (simp only: of_char_of)
  then show "is_digit (char_of (48 + d :: int))" "digit_val (char_of (48 + d :: int)) = d"
    using assms by (simp_all add: is_digit_def digit_val_def)
qed

lemma digits_val_foldl:
  "foldl (\<lambda>a c. 10 * a + digit_val c) a ds = a * 10 ^ length ds + digits_val ds"
proof (induction ds arbitrary: a)
  case Nil
  then show ?case by (simp add: digits_val_def)
next
  case (Cons c cs)
  have "foldl (\<lambda>a c. 10 * a + digit_val c) a (c # cs)
          = (10 * a + digit_val c) * 10 ^ length cs + digits_val cs"
    using Cons[of "10 * a + digit_val c"] by simp
  moreover have "digits_val (c # cs) = digit_val c * 10 ^ length cs + digits_val cs"
    using Cons[of "digit_val c"] by (simp add: digits_val_def)
  ultimately show ?case by (simp add: algebra_simps)
qed

lemma digits_val_append:
  "digits_val (xs @ ys) = digits_val xs * 10 ^ length ys + digits_val ys"
  using digits_val_foldl[of "digits_val xs" ys] by (simp add: digits_val_def)

lemma digits_val_Cons:
  "digits_val (c # cs) = digit_val c * 10 ^ length cs + digits_val cs"
  using digits_val_append[of "[c]" cs] by (simp add: digits_val_def)

lemma digits_val_zeros [simp]: "digits_val (replicate z CHR ''0'') = 0"
  by (induction z) (simp_all add: digits_val_Cons digit_val_def, simp add: digits_val_def)

lemma zeros_digits [simp]: "list_all is_digit (replicate z CHR ''0'')"
  by (induction z) (simp_all add: is_digit_def)

lemma digits_from_props:
  assumes "0 \<le> x"
  shows "list_all is_digit acc \<longrightarrow> list_all is_digit (digits_from x acc)"
    and "digits_val (digits_from x acc) = x * 10 ^ length acc + digits_val acc"
    and "length (digits_from x acc) = length acc + (if x = 0 then 1 else ndigits x)"
  using assms
proof (induction x acc rule: digits_from.induct)
  case (1 x acc)
  {
    case 1
    show ?case
    proof (cases "x < 10")
      case True
      then show ?thesis
        using digit_char[of x] \<open>0 \<le> x\<close> by (simp add: digits_from.simps[of x acc])
    next
      case False
      have d: "0 \<le> x mod 10" "x mod 10 < 10" "0 \<le> x div 10" using \<open>0 \<le> x\<close> by simp_all
      show ?thesis
        using False "1.IH"(1)[OF False d(3)] digit_char[OF d(1,2)]
        by (simp add: digits_from.simps[of x acc])
    qed
  next
    case 2
    show ?case
    proof (cases "x < 10")
      case True
      then show ?thesis
        using digit_char[of x] \<open>0 \<le> x\<close>
        by (simp add: digits_from.simps[of x acc] digits_val_Cons)
    next
      case False
      have d: "0 \<le> x mod 10" "x mod 10 < 10" "0 \<le> x div 10" using \<open>0 \<le> x\<close> by simp_all
      have "digits_val (digits_from x acc)
              = (x div 10) * 10 ^ (Suc (length acc)) + digits_val (char_of (48 + x mod 10) # acc)"
        using False "1.IH"(2)[OF False d(3)] by (simp add: digits_from.simps[of x acc])
      also have "\<dots> = (x div 10) * 10 ^ (Suc (length acc)) + x mod 10 * 10 ^ length acc
                        + digits_val acc"
        using digit_char(2)[OF d(1,2)] by (simp add: digits_val_Cons)
      also have "(x div 10) * 10 ^ (Suc (length acc)) + x mod 10 * 10 ^ length acc
                   = (x div 10 * 10 + x mod 10) * 10 ^ length acc"
        by (simp only: ring_distribs power_Suc mult_ac)
      also have "x div 10 * 10 + x mod 10 = x" by simp
      finally show ?thesis .
    qed
  next
    case 3
    show ?case
    proof (cases "x < 10")
      case True
      then have "x = 0 \<or> (0 < x \<and> x div 10 = 0)" using \<open>0 \<le> x\<close> by auto
      then show ?thesis
        using True by (auto simp: digits_from.simps[of x acc] ndigits.simps[of x] ndigits.simps[of 0])
    next
      case False
      have d: "0 \<le> x div 10" "x div 10 \<noteq> 0" "0 < x" using \<open>0 \<le> x\<close> False by auto
      show ?thesis
        using False "1.IH"(3)[OF False d(1)] d
        by (simp add: digits_from.simps[of x acc] ndigits.simps[of x])
    qed
  }
qed

lemma digits_of_props:
  assumes "0 < s"
  shows "list_all is_digit (digits_of s)" and "digits_val (digits_of s) = s"
    and "length (digits_of s) = ndigits s" and "digits_of s \<noteq> []"
proof -
  have nn: "0 \<le> s" using assms by simp
  show "list_all is_digit (digits_of s)"
    using digits_from_props(1)[OF nn, of "[]"] by (simp add: digits_of_def)
  show "digits_val (digits_of s) = s"
    using digits_from_props(2)[OF nn, of "[]"] by (simp add: digits_of_def digits_val_def)
  show l: "length (digits_of s) = ndigits s"
    using digits_from_props(3)[OF nn, of "[]"] assms by (simp add: digits_of_def)
  show "digits_of s \<noteq> []"
    using l assms by (auto simp: ndigits.simps[of s])
qed

lemma not_digit_dot: "\<not> is_digit CHR ''.''" and not_digit_minus: "\<not> is_digit CHR ''-''"
  by (simp_all add: is_digit_def)

lemma digits_keep: "list_all is_digit ds \<Longrightarrow> list_all keep_numeric ds"
  by (induction ds) (simp_all add: keep_numeric_def)

lemma unsigned_decimal_integer:
  assumes "list_all is_digit ds" "ds \<noteq> []"
  shows "unsigned_decimal ds = Some (to_double (digits_val ds) 1)"
proof -
  have tw: "takeWhile is_digit ds = ds" and dw: "dropWhile is_digit ds = []"
    using assms(1) by (simp_all add: list_all_iff)
  show ?thesis unfolding unsigned_decimal_def Let_def tw dw using assms(2) by simp
qed

lemma unsigned_decimal_fraction:
  assumes "list_all is_digit ip" "list_all is_digit fp" "ip \<noteq> []"
  shows "unsigned_decimal (ip @ CHR ''.'' # fp)
           = Some (to_double (digits_val (ip @ fp)) (10 ^ length fp))"
proof -
  have tw: "takeWhile is_digit (ip @ CHR ''.'' # fp) = ip"
    using assms(1) not_digit_dot by (simp add: list_all_iff takeWhile_append2)
  have dw: "dropWhile is_digit (ip @ CHR ''.'' # fp) = CHR ''.'' # fp"
    using assms(1) not_digit_dot by (simp add: list_all_iff dropWhile_append2)
  show ?thesis unfolding unsigned_decimal_def Let_def tw dw using assms(2,3) by simp
qed

lemma format_digits_parse:
  assumes s: "0 < s" and n1: "- 6 < n" and n2: "n \<le> 21"
  shows "unsigned_decimal (format_digits n s)
           = Some (case decimal_fraction n s of (a, b) \<Rightarrow> to_double a b)"
    and "list_all keep_numeric (format_digits n s)"
    and "format_digits n s \<noteq> []"
    and "hd (format_digits n s) \<noteq> CHR ''-''"
proof -
  define ds where "ds = digits_of s"
  define k where "k = int (length ds)"
  note D = digits_of_props[OF s, folded ds_def]
  have hdd: "is_digit (hd ds)" using D(1,4) by (cases ds) simp_all
  have kpos: "0 < k" using D(4) by (simp add: k_def)
  note kpos' = kpos[unfolded k_def ds_def]
  consider (int) "k \<le> n" | (mid) "0 < n" "n < k" | (small) "n \<le> 0"
    by linarith
  then have "unsigned_decimal (format_digits n s)
           = Some (case decimal_fraction n s of (a, b) \<Rightarrow> to_double a b)
      \<and> list_all keep_numeric (format_digits n s)
      \<and> format_digits n s \<noteq> []
      \<and> hd (format_digits n s) \<noteq> CHR ''-''"
  proof cases
    case int
    have f: "format_digits n s = ds @ replicate (nat (n - k)) CHR ''0''"
      using int n2 by (simp add: format_digits_def Let_def ds_def k_def)
    have all: "list_all is_digit (ds @ replicate (nat (n - k)) CHR ''0'')"
      using D(1) by simp
    have ne: "ds @ replicate (nat (n - k)) CHR ''0'' \<noteq> []" using D(4) by simp
    have val: "digits_val (ds @ replicate (nat (n - k)) CHR ''0'') = s * 10 ^ nat (n - k)"
      using D(2) by (simp add: digits_val_append)
    have df: "decimal_fraction n s = (s * 10 ^ nat (n - k), 1)"
      using int by (simp add: decimal_fraction_def Let_def ds_def k_def)
    have h: "hd (ds @ replicate (nat (n - k)) CHR ''0'') = hd ds" using D(4) by simp
    show ?thesis
      unfolding f using unsigned_decimal_integer[OF all ne] val df digits_keep[OF all] ne h hdd
        not_digit_minus
      by auto
  next
    case mid
    have f: "format_digits n s = take (nat n) ds @ CHR ''.'' # drop (nat n) ds"
      using mid n2 by (simp add: format_digits_def Let_def ds_def k_def)
    have ip: "list_all is_digit (take (nat n) ds)" "list_all is_digit (drop (nat n) ds)"
      using D(1) by (auto simp: list_all_iff dest: in_set_takeD in_set_dropD)
    have ipne: "take (nat n) ds \<noteq> []" using mid D(4) by simp
    have len: "length (drop (nat n) ds) = nat (k - n)" using mid by (simp add: k_def)
    have df: "decimal_fraction n s = (s, 10 ^ nat (k - n))"
      using mid by (simp add: decimal_fraction_def Let_def ds_def k_def)
    have h: "hd (take (nat n) ds @ CHR ''.'' # drop (nat n) ds) = hd ds"
      using ipne mid by (cases ds) (simp_all add: take_Cons')
    have keep: "list_all keep_numeric (take (nat n) ds @ CHR ''.'' # drop (nat n) ds)"
      using digits_keep[OF ip(1)] digits_keep[OF ip(2)] by (simp add: keep_numeric_def)
    show ?thesis
      unfolding f using unsigned_decimal_fraction[OF ip ipne] D(2) len df keep h hdd not_digit_minus
      by auto
  next
    case small
    have nk: "\<not> int (length (digits_of s)) \<le> n"
      using small kpos unfolding k_def ds_def by linarith
    have f: "format_digits n s = ''0'' @ CHR ''.'' # (replicate (nat (- n)) CHR ''0'' @ ds)"
      using small n1 nk by (simp add: format_digits_def Let_def ds_def k_def)
    have ip: "list_all is_digit ''0''" by (simp add: is_digit_def)
    have fp: "list_all is_digit (replicate (nat (- n)) CHR ''0'' @ ds)" using D(1) by simp
    have val: "digits_val (''0'' @ replicate (nat (- n)) CHR ''0'' @ ds) = s"
      using D(2) by (simp add: digits_val_append digits_val_Cons digit_val_def)
    have len: "length (replicate (nat (- n)) CHR ''0'' @ ds) = nat (k - n)"
      using small by (simp add: k_def)
    have df: "decimal_fraction n s = (s, 10 ^ nat (k - n))"
      using small nk by (simp add: decimal_fraction_def Let_def ds_def k_def)
    have keep: "list_all keep_numeric (''0'' @ CHR ''.'' # (replicate (nat (- n)) CHR ''0'' @ ds))"
      using digits_keep[OF fp] by (simp add: keep_numeric_def is_digit_def)
    show ?thesis
      unfolding f using unsigned_decimal_fraction[OF ip fp] val len df keep
      by simp
  qed
  then show "unsigned_decimal (format_digits n s)
           = Some (case decimal_fraction n s of (a, b) \<Rightarrow> to_double a b)"
    and "list_all keep_numeric (format_digits n s)"
    and "format_digits n s \<noteq> []"
    and "hd (format_digits n s) \<noteq> CHR ''-''"
    by simp_all
qed

lemma is_binary64_pos: "is_binary64 v \<Longrightarrow> 0 < v"
  unfolding is_binary64_def by (auto intro!: mult_pos_pos)

lemma pick_digits_valid:
  "pick_digits v nx k = Some c \<Longrightarrow> valid_digits v (fst c) (snd c)"
  unfolding pick_digits_def Let_def by (auto split: if_splits)

lemma first_exact_spec:
  "\<exists>i\<le>fuel. of_int \<lfloor>v * 10 ^ (j + i)\<rfloor> = v * 10 ^ (j + i) \<Longrightarrow>
   of_int \<lfloor>v * 10 ^ first_exact v j fuel\<rfloor> = v * 10 ^ first_exact v j fuel"
proof (induction fuel arbitrary: j)
  case 0
  then show ?case by simp
next
  case (Suc fuel)
  show ?case
  proof (cases "of_int \<lfloor>v * 10 ^ j\<rfloor> = v * 10 ^ j")
    case True
    then show ?thesis by simp
  next
    case False
    obtain i where i: "i \<le> Suc fuel" "of_int \<lfloor>v * 10 ^ (j + i)\<rfloor> = v * 10 ^ (j + i)"
      using Suc.prems by blast
    have "i \<noteq> 0" using i(2) False by (cases i) auto
    then obtain i' where i': "i = Suc i'" by (cases i) auto
    have "\<exists>i\<le>fuel. of_int \<lfloor>v * 10 ^ (Suc j + i)\<rfloor> = v * 10 ^ (Suc j + i)"
      using i i' by (intro exI[of _ i']) simp
    then show ?thesis using False Suc.IH[of "Suc j"] by simp
  qed
qed

lemma binary64_scaled_integer:
  fixes v :: rat
  assumes "v = of_int m * 2 powi qe" "- int N \<le> qe"
  shows "\<exists>z::int. v * 10 ^ N = of_int z"
proof -
  have a: "(2::rat) powi qe * 2 ^ N = 2 powi (qe + int N)"
    by (simp add: power_int_add)
  have b: "(2::rat) powi (qe + int N) = of_int (2 ^ nat (qe + int N))"
    using assms(2) by (simp add: power_int_def)
  have c: "(10::rat) ^ N = 2 ^ N * 5 ^ N"
    using power_mult_distrib[of "2::rat" 5 N] by simp
  have "v * 10 ^ N = of_int m * (2 powi qe * 2 ^ N) * 5 ^ N"
    unfolding assms(1) c by (simp only: mult.assoc)
  also have "\<dots> = of_int m * of_int (2 ^ nat (qe + int N)) * 5 ^ N"
    unfolding a b ..
  also have "\<dots> = of_int (m * 2 ^ nat (qe + int N) * 5 ^ N)" by simp
  finally show ?thesis by blast
qed

lemma exact_digits_valid:
  assumes "is_binary64 v"
  shows "valid_digits v (fst (exact_digits v)) (snd (exact_digits v))"
proof -
  define N :: nat where "N = 1074"
  define j where "j = first_exact v 0 N"
  define P where "P = \<lfloor>v * 10 ^ j\<rfloor>"
  obtain m qe where vm: "v = of_int m * 2 powi qe" and q: "- 1074 \<le> qe"
    using assms unfolding is_binary64_def by blast
  have "- int N \<le> qe" using q by (simp add: N_def)
  then obtain z :: int where "v * 10 ^ N = of_int z"
    using binary64_scaled_integer[OF vm] by blast
  then have "of_int \<lfloor>v * 10 ^ (0 + N)\<rfloor> = v * 10 ^ (0 + N)" by simp
  then have "\<exists>i\<le>N. of_int \<lfloor>v * 10 ^ (0 + i)\<rfloor> = v * 10 ^ (0 + i)" by blast
  then have P: "of_int P = v * 10 ^ j"
    using first_exact_spec[of N v 0] by (simp add: P_def j_def)
  have vpos: "0 < v" using assms by (rule is_binary64_pos)
  have "(0::rat) < of_int P" unfolding P using vpos by simp
  then have Ppos: "0 < P" by simp
  have ex: "exact_digits v = (int (ndigits P) - int j, P)"
    by (simp add: exact_digits_def Let_def P_def j_def N_def)
  have len: "length (digits_of P) = ndigits P" using digits_of_props(3)[OF Ppos] .
  have ratio: "(of_int P :: rat) / of_int (10 ^ j) = v" using P by simp
  have "to_double (fst (decimal_fraction (int (ndigits P) - int j) P))
                  (snd (decimal_fraction (int (ndigits P) - int j) P)) = Fin v"
  proof (cases "j = 0")
    case True
    have "decimal_fraction (int (ndigits P) - int j) P = (P, 1)"
      using True by (simp add: decimal_fraction_def Let_def len)
    moreover have "to_double_pos P 1 = Fin v"
      using to_double_pos_idem[OF assms Ppos, of 1] ratio True by simp
    ultimately show ?thesis using Ppos by (simp add: to_double_def)
  next
    case False
    have "decimal_fraction (int (ndigits P) - int j) P = (P, 10 ^ j)"
      using False by (simp add: decimal_fraction_def Let_def len)
    moreover have "to_double_pos P (10 ^ j) = Fin v"
      using to_double_pos_idem[OF assms Ppos, of "10 ^ j"] ratio by simp
    ultimately show ?thesis using Ppos by (simp add: to_double_def)
  qed
  then have "valid_digits v (int (ndigits P) - int j) P"
    unfolding valid_digits_def case_prod_beta using Ppos by (rule_tac conjI)
  then show ?thesis by (simp only: ex fst_conv snd_conv)
qed

lemma search_digits_valid:
  assumes "is_binary64 v"
  shows "valid_digits v (fst (search_digits v nx k fuel)) (snd (search_digits v nx k fuel))"
proof (induction fuel arbitrary: k)
  case 0
  then show ?case using exact_digits_valid[OF assms] by simp
next
  case (Suc fuel)
  then show ?case
    using pick_digits_valid[of v nx k] by (auto split: option.splits)
qed

lemma shortest_digits_valid:
  "is_binary64 v \<Longrightarrow> shortest_digits v = (n, s) \<Longrightarrow> valid_digits v n s"
  using search_digits_valid[of v "decimal_exponent v" 1 17] by (simp add: shortest_digits_def)

lemma digits_val_nonneg: "list_all is_digit ds \<Longrightarrow> 0 \<le> digits_val ds"
proof (induction ds rule: rev_induct)
  case Nil
  then show ?case by (simp add: digits_val_def)
next
  case (snoc c cs)
  then have "0 \<le> digits_val cs" "0 \<le> digit_val c"
    by (simp_all add: is_digit_def digit_val_def)
  then show ?case by (simp add: digits_val_append digits_val_Cons) (simp add: digits_val_def)
qed

lemma to_double_range:
  assumes "0 \<le> a" "0 < b" "to_double a b = Fin v"
  shows "v = 0 \<or> is_binary64 v"
proof (cases "a = 0")
  case True
  then show ?thesis using assms(3) by (simp add: to_double_def)
next
  case False
  then have "0 < a" using assms(1) by simp
  then show ?thesis
    using to_double_pos_binary64[OF _ assms(2), of a v] assms(3) False by (simp add: to_double_def)
qed

lemma unsigned_decimal_range:
  assumes "unsigned_decimal u = Some (Fin v)"
  shows "v = 0 \<or> is_binary64 v"
proof -
  define ip where "ip = takeWhile is_digit u"
  define rest where "rest = dropWhile is_digit u"
  have ipd: "list_all is_digit ip"
    by (auto simp: ip_def list_all_iff dest: set_takeWhileD)
  have ud: "unsigned_decimal u =
      (case rest of
           [] \<Rightarrow> if ip = [] then None else Some (to_double (digits_val ip) 1)
         | c # fp \<Rightarrow>
             if c = CHR ''.'' \<and> list_all is_digit fp \<and> (ip \<noteq> [] \<or> fp \<noteq> [])
             then Some (to_double (digits_val (ip @ fp)) (10 ^ length fp))
             else None)"
    unfolding unsigned_decimal_def Let_def ip_def rest_def ..
  show ?thesis
  proof (cases rest)
    case Nil
    then have "to_double (digits_val ip) 1 = Fin v"
      using assms unfolding ud by (simp split: if_splits)
    then show ?thesis using to_double_range[of "digits_val ip" 1 v] digits_val_nonneg[OF ipd] by simp
  next
    case (Cons c fp)
    then have fpd: "list_all is_digit fp"
      and r: "to_double (digits_val (ip @ fp)) (10 ^ length fp) = Fin v"
      using assms unfolding ud by (simp_all split: if_splits)
    have "list_all is_digit (ip @ fp)" using ipd fpd by simp
    then have "0 \<le> digits_val (ip @ fp)" by (rule digits_val_nonneg)
    then show ?thesis using to_double_range[of "digits_val (ip @ fp)" "10 ^ length fp" v] r by simp
  qed
qed

lemma parseNum_range:
  assumes "parseNum y = Fin v"
  shows "v = 0 \<or> is_binary64 \<bar>v\<bar>"
proof (cases "v = 0")
  case True
  then show ?thesis ..
next
  case False
  obtain s where y: "y = Some s" "s \<noteq> []"
    and N: "Number_of (filter keep_numeric s) = Some (Fin v)"
    using assms False by (auto simp: parseNum_def split: option.splits if_splits)
  show ?thesis
  proof (cases "filter keep_numeric s")
    case Nil
    then show ?thesis using N False by (simp add: Number_of_def)
  next
    case (Cons c u)
    show ?thesis
    proof (cases "c = CHR ''-''")
      case True
      then obtain d where d: "unsigned_decimal u = Some d" "negate d = Fin v"
        using N Cons by (auto simp: Number_of_def)
      then obtain w where w: "d = Fin w" "v = - w" by (cases d) auto
      then have "w = 0 \<or> is_binary64 w" using unsigned_decimal_range d(1) by blast
      then show ?thesis using w False is_binary64_pos[of w] by auto
    next
      case False
      then have "unsigned_decimal (c # u) = Some (Fin v)"
        using N Cons by (simp add: Number_of_def)
      then have "v = 0 \<or> is_binary64 v" by (rule unsigned_decimal_range)
      then show ?thesis using is_binary64_pos[of v] by auto
    qed
  qed
qed

text \<open>
  Printing in decimal notation and reading back: the digits and the position of the point
  that \<open>toString()\<close> chooses denote the number itself, and without an exponent the text
  holds no other character that \<open>parseNum\<close> would keep.
\<close>

lemma parseNum_toString_decimal_notation:
  assumes dec: "decimal_notation (parseNum (Some x))"
  shows "parseNum (Some (Number_toString (parseNum (Some x)))) = parseNum (Some x)"
proof -
  obtain v where d: "parseNum (Some x) = Fin v"
    using dec by (cases "parseNum (Some x)") (simp_all add: decimal_notation_def)
  show ?thesis
  proof (cases "v = 0")
    case True
    have "unsigned_decimal ''0'' = Some (to_double (digits_val ''0'') 1)"
      by (rule unsigned_decimal_integer) (simp_all add: is_digit_def)
    then have "parseNum (Some ''0'') = Fin 0"
      by (simp add: parseNum_def keep_numeric_def is_digit_def Number_of_def digits_val_def
            digit_val_def to_double_def)
    then show ?thesis using d True by (simp add: Number_toString_def)
  next
    case False
    have bin: "is_binary64 \<bar>v\<bar>" using parseNum_range[OF d] False by simp
    obtain n s where ns: "shortest_digits \<bar>v\<bar> = (n, s)" by (cases "shortest_digits \<bar>v\<bar>")
    have n: "- 6 < n" "n \<le> 21"
      using dec d False ns by (simp_all add: decimal_notation_def)
    have valid: "valid_digits \<bar>v\<bar> n s" using shortest_digits_valid[OF bin ns] .
    then have s: "0 < s" by (simp add: valid_digits_def)
    define str where "str = format_digits n s"
    note F = format_digits_parse[OF s n, folded str_def]
    have u: "unsigned_decimal str = Some (Fin \<bar>v\<bar>)"
      using F(1) valid by (auto simp: valid_digits_def split: prod.splits)
    have flt: "filter keep_numeric str = str"
      using F(2) by (simp add: list_all_iff filter_id_conv)
    obtain c cs where str: "str = c # cs" and c: "c \<noteq> CHR ''-''"
      using F(3,4) by (cases str) auto
    have pos: "positive_toString \<bar>v\<bar> = str"
      by (simp add: positive_toString_def ns str_def)
    show ?thesis
    proof (cases "0 < v")
      case True
      then have ts: "Number_toString (Fin v) = str"
        using pos by (simp add: Number_toString_def)
      have "Number_of str = Some (Fin v)"
        using u c True unfolding str by (simp add: Number_of_def)
      then show ?thesis
        unfolding d ts using flt str by (simp add: parseNum_def)
    next
      case neg: False
      then have vneg: "v < 0" using False by simp
      then have ts: "Number_toString (Fin v) = CHR ''-'' # str"
        using pos by (simp add: Number_toString_def)
      have flt': "filter keep_numeric (CHR ''-'' # str) = CHR ''-'' # str"
        using flt by (simp add: keep_numeric_def)
      have "Number_of (CHR ''-'' # str) = Some (Fin v)"
        using u vneg by (simp add: Number_of_def)
      then show ?thesis
        unfolding d ts using flt' by (simp add: parseNum_def)
    qed
  qed
qed

text \<open>
  The position of the point: the shortest digits of a number from \<open>1e-6\<close> up to \<open>1e21\<close> are
  printed without an exponent.
\<close>

lemma pow10_powi: "pow10 e = (10::rat) powi e"
  by (simp add: pow10_def power_int_def field_simps)

lemma ndigits_bounds:
  "0 < x \<Longrightarrow> 10 ^ (ndigits x - 1) \<le> x \<and> x < 10 ^ ndigits x"
proof (induction x rule: ndigits.induct)
  case (1 x)
  show ?case
  proof (cases "x < 10")
    case True
    then have "x div 10 = 0" using "1.prems" by simp
    then have "ndigits x = 1" using "1.prems" by (simp add: ndigits.simps[of x] ndigits.simps[of 0])
    then show ?thesis using True "1.prems" by simp
  next
    case False
    then have p: "0 < x div 10" using "1.prems" by simp
    note IH = "1.IH"[OF "1.prems" p]
    have nd: "ndigits x = Suc (ndigits (x div 10))" using "1.prems" by (simp add: ndigits.simps[of x])
    have pos: "0 < ndigits (x div 10)" using p by (simp add: ndigits.simps[of "x div 10"])
    have lo: "10 ^ (ndigits (x div 10) - 1) * 10 \<le> x"
    proof -
      have "10 ^ (ndigits (x div 10) - 1) * 10 \<le> (x div 10) * 10" using IH by simp
      also have "\<dots> \<le> x" by presburger
      finally show ?thesis .
    qed
    have "10 ^ (ndigits (x div 10) - 1) * (10::int) = 10 ^ (ndigits x - 1)"
      using pos nd by (cases "ndigits (x div 10)") simp_all
    then have l: "10 ^ (ndigits x - 1) \<le> x" using lo by simp
    have "x div 10 + 1 \<le> 10 ^ ndigits (x div 10)" using IH by simp
    then have "(x div 10 + 1) * 10 \<le> 10 ^ ndigits (x div 10) * 10" by simp
    moreover have "x < (x div 10 + 1) * 10" by presburger
    ultimately have u: "x < 10 ^ ndigits x" using nd by simp
    show ?thesis using l u by simp
  qed
qed


lemma ndigits_rat_bounds:
  assumes "0 < x"
  shows "(10::rat) powi (int (ndigits x) - 1) \<le> of_int x" and "of_int x < (10::rat) powi (int (ndigits x))"
proof -
  have pos: "0 < ndigits x" using assms by (simp add: ndigits.simps[of x])
  have b: "10 ^ (ndigits x - 1) \<le> x" "x < 10 ^ ndigits x"
    using ndigits_bounds[OF assms] by auto
  have "(of_int (10 ^ (ndigits x - 1)) :: rat) \<le> of_int x"
    using b(1) by (simp only: of_int_le_iff)
  moreover have "int (ndigits x) - 1 = int (ndigits x - 1)" using pos by simp
  ultimately show "(10::rat) powi (int (ndigits x) - 1) \<le> of_int x"
    by (simp only: power_int_of_nat) simp
  have "(of_int x :: rat) < of_int (10 ^ ndigits x)"
    using b(2) by (simp only: of_int_less_iff)
  then show "of_int x < (10::rat) powi (int (ndigits x))"
    by simp
qed

lemma powi10_mono: "e \<le> e' \<Longrightarrow> (10::rat) powi e \<le> 10 powi e'"
  by (intro power_int_increasing) simp_all

lemma powi10_less_imp: "(10::rat) powi e < 10 powi e' \<Longrightarrow> e < e'"
  using powi10_mono[of e' e] by (cases "e < e'") auto

lemma decade_unique:
  assumes "(10::rat) powi (n - 1) \<le> x" "x < 10 powi n" "(10::rat) powi (n' - 1) \<le> x" "x < 10 powi n'"
  shows "n = n'"
proof -
  have "(10::rat) powi (n - 1) < 10 powi n'" using assms(1,4) by simp
  then have 1: "n - 1 < n'" by (rule powi10_less_imp)
  have "(10::rat) powi (n' - 1) < 10 powi n" using assms(3,2) by simp
  then have 2: "n' - 1 < n" by (rule powi10_less_imp)
  show ?thesis using 1 2 by simp
qed

lemma decimal_exponent_bounds:
  assumes "0 < v"
  shows "(10::rat) powi (decimal_exponent v - 1) \<le> v" and "v < 10 powi (decimal_exponent v)"
proof -
  obtain p q where pq: "quotient_of v = (p, q)" by (cases "quotient_of v")
  have q: "0 < q" using quotient_of_denom_pos[OF pq] .
  have v: "v = of_int p / of_int q" using quotient_of_div[OF pq] .
  have p: "0 < p"
  proof (rule ccontr)
    assume "\<not> 0 < p"
    then have "(of_int p :: rat) \<le> 0" by simp
    then have "v \<le> 0" unfolding v using q by (simp add: divide_le_0_iff)
    then show False using assms by simp
  qed
  define n0 where "n0 = int (ndigits p) - int (ndigits q)"
  have qpos: "(0::rat) < of_int q" using q by simp
  note A = ndigits_rat_bounds[OF p]
  note B = ndigits_rat_bounds[OF q]
  have up: "v < 10 powi (n0 + 1)"
  proof -
    have "v < 10 powi (int (ndigits p)) / of_int q"
      unfolding v using A(2) qpos by (simp add: divide_strict_right_mono)
    also have "\<dots> \<le> 10 powi (int (ndigits p)) / 10 powi (int (ndigits q) - 1)"
    proof (intro divide_left_mono)
      show "10 powi (int (ndigits q) - 1) \<le> rat_of_int q" using B(1) .
      show "(0::rat) \<le> 10 powi int (ndigits p)" by simp
      show "0 < rat_of_int q * 10 powi (int (ndigits q) - 1)" using qpos by (intro mult_pos_pos) simp_all
    qed
    also have "\<dots> = 10 powi (n0 + 1)"
      unfolding n0_def by (simp add: power_int_diff power_int_add algebra_simps)
    finally show ?thesis .
  qed
  have lo: "10 powi (n0 - 1) < v"
  proof -
    have "(10::rat) powi (n0 - 1) = 10 powi (int (ndigits p) - 1) / 10 powi (int (ndigits q))"
      unfolding n0_def by (simp add: power_int_diff power_int_add algebra_simps)
    also have "\<dots> < 10 powi (int (ndigits p) - 1) / of_int q"
    proof (intro divide_strict_left_mono)
      show "rat_of_int q < 10 powi int (ndigits q)" using B(2) .
      show "(0::rat) < 10 powi (int (ndigits p) - 1)" by simp
      show "0 < 10 powi int (ndigits q) * rat_of_int q" using qpos by (intro mult_pos_pos) simp_all
    qed
    also have "\<dots> \<le> v"
      unfolding v using A(1) qpos by (simp add: divide_right_mono)
    finally show ?thesis .
  qed
  have de: "decimal_exponent v = (if (10::rat) powi n0 \<le> v then n0 + 1 else n0)"
    by (simp add: decimal_exponent_def pq Let_def n0_def pow10_powi)
  show "(10::rat) powi (decimal_exponent v - 1) \<le> v"
    using de lo by (auto simp: not_le)
  show "v < 10 powi (decimal_exponent v)"
    using de up by (auto simp: not_le)
qed

lemma exact_digits_props:
  assumes "is_binary64 v"
  shows "\<exists>j P. exact_digits v = (int (ndigits P) - int j, P) \<and> 0 < P \<and> (of_int P :: rat) = v * 10 ^ j"
proof -
  define N :: nat where "N = 1074"
  define j where "j = first_exact v 0 N"
  define P where "P = \<lfloor>v * 10 ^ j\<rfloor>"
  obtain m qe where vm: "v = of_int m * 2 powi qe" and q: "- 1074 \<le> qe"
    using assms unfolding is_binary64_def by blast
  have "- int N \<le> qe" using q by (simp add: N_def)
  then obtain z :: int where "v * 10 ^ N = of_int z"
    using binary64_scaled_integer[OF vm] by blast
  then have "of_int \<lfloor>v * 10 ^ (0 + N)\<rfloor> = v * 10 ^ (0 + N)" by simp
  then have "\<exists>i\<le>N. of_int \<lfloor>v * 10 ^ (0 + i)\<rfloor> = v * 10 ^ (0 + i)" by blast
  then have P: "of_int P = v * 10 ^ j"
    using first_exact_spec[of N v 0] by (simp add: P_def j_def)
  have vpos: "0 < v" using assms by (rule is_binary64_pos)
  have "(0::rat) < of_int P" unfolding P using vpos by simp
  then have Ppos: "0 < P" by simp
  have ex: "exact_digits v = (int (ndigits P) - int j, P)"
    by (simp add: exact_digits_def Let_def P_def j_def N_def)
  show ?thesis using ex Ppos P by blast
qed

lemma exact_digits_exponent:
  assumes "is_binary64 v"
  shows "fst (exact_digits v) = decimal_exponent v"
proof -
  obtain j P where ex: "exact_digits v = (int (ndigits P) - int j, P)" and Ppos: "0 < P"
      and P: "(of_int P :: rat) = v * 10 ^ j"
    using exact_digits_props[OF assms] by blast
  have vpos: "0 < v" using assms by (rule is_binary64_pos)
  define n where "n = int (ndigits P) - int j"
  have v: "v = of_int P * 10 powi (- int j)"
    using P by (simp add: power_int_minus field_simps)
  have sh: "\<And>e. (10::rat) powi e * 10 powi (- int j) = 10 powi (e - int j)"
    by (simp add: power_int_diff power_int_minus field_simps)
  have "(10::rat) powi (int (ndigits P) - 1) * 10 powi (- int j) \<le> of_int P * 10 powi (- int j)"
    using ndigits_rat_bounds(1)[OF Ppos] by (intro mult_right_mono) simp_all
  then have lo: "(10::rat) powi (n - 1) \<le> v"
    unfolding v[symmetric] sh n_def by (simp add: algebra_simps)
  have "of_int P * 10 powi (- int j) < (10::rat) powi (int (ndigits P)) * 10 powi (- int j)"
    using ndigits_rat_bounds(2)[OF Ppos] by (intro mult_strict_right_mono) simp_all
  then have hi: "v < (10::rat) powi n"
    unfolding v[symmetric] sh n_def .
  have "n = decimal_exponent v"
    using decade_unique[OF lo hi decimal_exponent_bounds[OF vpos]] .
  then show ?thesis by (simp add: ex n_def)
qed

lemma pick_digits_exponent:
  assumes "pick_digits v nx k = Some (n, s)"
  shows "n = nx \<or> (n = nx + 1 \<and> valid_digits v (nx + 1) (10 ^ (k - 1)))"
  using assms unfolding pick_digits_def Let_def
  by (auto split: if_splits)

lemma search_digits_exponent:
  assumes "is_binary64 v" and "nx = decimal_exponent v"
  shows "fst (search_digits v nx k fuel) = nx
       \<or> (\<exists>k'. k \<le> k' \<and> k' < k + fuel \<and> fst (search_digits v nx k fuel) = nx + 1
              \<and> valid_digits v (nx + 1) (10 ^ (k' - 1)))"
proof (induction fuel arbitrary: k)
  case 0
  then show ?case using exact_digits_exponent[OF assms(1)] assms(2) by simp
next
  case (Suc fuel)
  show ?case
  proof (cases "pick_digits v nx k")
    case None
    then have eq: "search_digits v nx k (Suc fuel) = search_digits v nx (Suc k) fuel" by simp
    from Suc.IH[of "Suc k"] show ?thesis
    proof
      assume "fst (search_digits v nx (Suc k) fuel) = nx"
      then show ?thesis using eq by simp
    next
      assume "\<exists>k'. Suc k \<le> k' \<and> k' < Suc k + fuel \<and> fst (search_digits v nx (Suc k) fuel) = nx + 1
              \<and> valid_digits v (nx + 1) (10 ^ (k' - 1))"
      then obtain k' where "Suc k \<le> k'" "k' < Suc k + fuel"
          "fst (search_digits v nx (Suc k) fuel) = nx + 1" "valid_digits v (nx + 1) (10 ^ (k' - 1))"
        by blast
      then have "k \<le> k' \<and> k' < k + Suc fuel \<and> fst (search_digits v nx k (Suc fuel)) = nx + 1
              \<and> valid_digits v (nx + 1) (10 ^ (k' - 1))"
        using eq by simp
      then show ?thesis by blast
    qed
  next
    case (Some c)
    obtain n s where c: "c = (n, s)" by (cases c)
    have eq: "search_digits v nx k (Suc fuel) = (n, s)" using Some c by simp
    from pick_digits_exponent[OF Some[unfolded c]] show ?thesis
    proof
      assume "n = nx"
      then show ?thesis using eq by simp
    next
      assume "n = nx + 1 \<and> valid_digits v (nx + 1) (10 ^ (k - 1))"
      then have "k \<le> k \<and> k < k + Suc fuel \<and> fst (search_digits v nx k (Suc fuel)) = nx + 1
              \<and> valid_digits v (nx + 1) (10 ^ (k - 1))"
        using eq by simp
      then show ?thesis by blast
    qed
  qed
qed

lemma ndigits_power10: "ndigits (10 ^ j) = Suc j"
proof (induction j)
  case 0
  then show ?case by (simp add: ndigits.simps[of 1] ndigits.simps[of 0])
next
  case (Suc j)
  have "(10::int) ^ Suc j div 10 = 10 ^ j" by simp
  then show ?case using Suc by (simp add: ndigits.simps[of "10 ^ Suc j"] del: power_Suc)
qed

lemma ten_21_exact: "to_double (10 ^ 21) 1 = Fin (10 ^ 21)"
  by code_simp

lemma decimal_fraction_power10:
  assumes "1 \<le> k" "k \<le> 22"
  shows "decimal_fraction 22 (10 ^ (k - 1)) = (10 ^ 21, 1)"
proof -
  have pos: "0 < (10::int) ^ (k - 1)" by (rule zero_less_power) simp
  have sk: "Suc (k - 1) = k" using assms(1) by arith
  have len: "length (digits_of (10 ^ (k - 1))) = k"
    unfolding digits_of_props(3)[OF pos] ndigits_power10 by (rule sk)
  have e: "(k - 1) + (22 - k) = 21" using assms by arith
  have "(10::int) ^ (k - 1) * 10 ^ (22 - k) = 10 ^ ((k - 1) + (22 - k))"
    by (rule power_add[symmetric])
  then have p: "(10::int) ^ (k - 1) * 10 ^ (22 - k) = 10 ^ 21" by (simp only: e)
  have c: "(int k \<le> 22) = True" using assms(2) by arith
  have n: "nat (22 - int k) = 22 - k" by arith
  show ?thesis
    unfolding decimal_fraction_def Let_def len c if_True n p by (rule refl)
qed

lemma shortest_digits_decimal:
  assumes bin: "is_binary64 v" and lo: "1 / 10 ^ 6 \<le> v" and hi: "v < 10 ^ 21"
      and ns: "shortest_digits v = (n, s)"
  shows "- 6 < n \<and> n \<le> 21"
proof -
  define nx where "nx = decimal_exponent v"
  have vpos: "0 < v" using bin by (rule is_binary64_pos)
  note E = decimal_exponent_bounds[OF vpos, folded nx_def]
  have "(10::rat) powi (nx - 1) < 10 powi 21" using E(1) hi by simp
  then have nx21: "nx \<le> 21" using powi10_less_imp[of "nx - 1" 21] by simp
  have "(10::rat) powi (- 6) < 10 powi nx"
    using E(2) lo by (simp add: power_int_minus field_simps)
  then have nx6: "- 6 < nx" by (rule powi10_less_imp)
  have n: "n = fst (search_digits v nx 1 17)"
    using ns by (simp add: shortest_digits_def nx_def)
  from search_digits_exponent[OF bin nx_def, of 1 17] show ?thesis
  proof
    assume "fst (search_digits v nx 1 17) = nx"
    then show ?thesis using n nx21 nx6 by simp
  next
    assume "\<exists>k'. 1 \<le> k' \<and> k' < 1 + 17 \<and> fst (search_digits v nx 1 17) = nx + 1
              \<and> valid_digits v (nx + 1) (10 ^ (k' - 1))"
    then obtain k' where k: "1 \<le> k'" "k' < 1 + 17" and n1: "n = nx + 1"
        and valid: "valid_digits v (nx + 1) (10 ^ (k' - 1))"
      using n by auto
    have "nx \<noteq> 21"
    proof
      assume "nx = 21"
      then have "valid_digits v 22 (10 ^ (k' - 1))" using valid by simp
      moreover have "decimal_fraction 22 (10 ^ (k' - 1)) = (10 ^ 21, 1)"
        using decimal_fraction_power10[of k'] k by simp
      ultimately have "to_double (10 ^ 21) 1 = Fin v"
        by (simp add: valid_digits_def del: power_numeral)
      then have "v = 10 ^ 21" using ten_21_exact by simp
      then show False using hi by simp
    qed
    then show ?thesis using n1 nx21 nx6 by simp
  qed
qed

text \<open>
  The least number printed without an exponent is the Number \<open>1e-6\<close>, the binary64 value
  nearest to one millionth, which lies just below it; no binary64 value lies between the
  two. The Number \<open>1e21\<close> is \<open>10 ^ 21\<close> itself.
\<close>

lemma one_millionth: "to_double 1 (10 ^ 6) = Fin (4722366482869645 / 2 ^ 72)"
  by code_simp

lemma one_millionth_parse: "parseNum (Some ''0.000001'') = Fin (4722366482869645 / 2 ^ 72)"
  by code_simp

lemma one_millionth_digits: "shortest_digits (4722366482869645 / 2 ^ 72) = (- 5, 1)"
  by code_simp

lemma one_millionth_print: "Number_toString (Fin (4722366482869645 / 2 ^ 72)) = ''0.000001''"
  by code_simp

lemma binary64_below_one_millionth:
  assumes bin: "is_binary64 v" and lo: "4722366482869645 / 2 ^ 72 \<le> v" and hi: "v < 1 / 10 ^ 6"
  shows "v = 4722366482869645 / 2 ^ 72"
proof -
  obtain m qe where vm: "v = of_int m * 2 powi qe" and m: "0 < m" "m < 2 ^ 53"
    using bin unfolding is_binary64_def by blast
  have q72: "(2::rat) powi (- 72) = 1 / 2 ^ 72"
    by (simp add: power_int_minus field_simps)
  have qe: "- 72 \<le> qe"
  proof (rule ccontr)
    assume "\<not> - 72 \<le> qe"
    then have "qe \<le> - 73" by simp
    then have "(2::rat) powi qe \<le> 2 powi (- 73)" by (rule powi_mono)
    moreover have "(2::rat) powi (- 73) = 1 / 2 ^ 73" by (simp add: power_int_minus field_simps)
    ultimately have p: "(2::rat) powi qe \<le> 1 / 2 ^ 73" by simp
    have "(of_int m :: rat) \<le> 2 ^ 53"
    proof -
      have "(of_int m :: rat) \<le> of_int (2 ^ 53)" using m(2) by (simp only: of_int_le_iff)
      then show ?thesis by simp
    qed
    then have "of_int m * 2 powi qe \<le> (2 ^ 53 :: rat) * (1 / 2 ^ 73)"
      using p by (intro mult_mono) simp_all
    then have "v \<le> 1 / 2 ^ 20" unfolding vm by simp
    then show False using lo by simp
  qed
  define k where "k = nat (qe + 72)"
  have "qe = - 72 + int k" using qe by (simp add: k_def)
  then have "(2::rat) powi qe = 2 ^ k * 2 powi (- 72)" by (rule powi_shift)
  then have v: "v = of_int (m * 2 ^ k) / 2 ^ 72" unfolding vm q72 by simp
  define z where "z = m * 2 ^ k"
  have vz: "v = of_int z / 2 ^ 72" using v by (simp only: z_def)
  have "(4722366482869645 :: rat) \<le> of_int z"
    using lo unfolding vz by (simp add: field_simps)
  then have "(of_int 4722366482869645 :: rat) \<le> of_int z" by simp
  then have z1: "4722366482869645 \<le> z" by (simp only: of_int_le_iff)
  have "(of_int z :: rat) * 10 ^ 6 < 2 ^ 72"
    using hi unfolding vz by (simp add: field_simps)
  then have "(of_int (z * 10 ^ 6) :: rat) < of_int (2 ^ 72)" by simp
  then have "z * 10 ^ 6 < 2 ^ 72" by (simp only: of_int_less_iff)
  then have z2: "z \<le> 4722366482869645" by simp
  have "z = 4722366482869645" using z1 z2 by simp
  then show ?thesis using vz by simp
qed

lemma shortest_digits_decimal_number:
  assumes bin: "is_binary64 v" and lo: "to_double 1 (10 ^ 6) = Fin lo" and ge: "lo \<le> v"
      and hi: "v < 10 ^ 21" and ns: "shortest_digits v = (n, s)"
  shows "- 6 < n \<and> n \<le> 21"
proof (cases "1 / 10 ^ 6 \<le> v")
  case True
  then show ?thesis using shortest_digits_decimal[OF bin _ hi ns] by blast
next
  case False
  then have below: "v < 1 / 10 ^ 6" by simp
  have "lo = 4722366482869645 / 2 ^ 72" using lo one_millionth by simp
  then have "4722366482869645 / 2 ^ 72 \<le> v" using ge by simp
  then have "v = 4722366482869645 / 2 ^ 72"
    using binary64_below_one_millionth[OF bin _ below] by blast
  then have "shortest_digits v = (- 5, 1)" by (simp only: one_millionth_digits)
  then show ?thesis using ns by simp
qed

lemma one_millionth_candidates:
  "\<forall>k\<in>set [1..<18]. (case decimal_fraction (- 5) (10 ^ (k - 1)) of (a, b) \<Rightarrow> to_double a b)
       = Fin (4722366482869645 / 2 ^ 72)"
  by code_simp

lemma decimal_digits_magnitude:
  assumes bin: "is_binary64 v" and lo: "to_double 1 (10 ^ 6) = Fin lo"
      and ns: "shortest_digits v = (n, s)" and n: "- 6 < n" "n \<le> 21"
  shows "lo \<le> v \<and> v < 10 ^ 21"
proof -
  define nx where "nx = decimal_exponent v"
  have vpos: "0 < v" using bin by (rule is_binary64_pos)
  note E = decimal_exponent_bounds[OF vpos, folded nx_def]
  have lo_val: "lo = 4722366482869645 / 2 ^ 72" using lo one_millionth by simp
  have lo_less: "lo < 1 / 10 ^ 6" unfolding lo_val by simp
  have fst_n: "n = fst (search_digits v nx 1 17)"
    using ns by (simp add: shortest_digits_def nx_def)
  have upper: "nx \<le> 21 \<Longrightarrow> v < 10 ^ 21"
  proof -
    assume "nx \<le> 21"
    then have "(10::rat) powi nx \<le> 10 powi 21" by (rule powi10_mono)
    then show ?thesis using E(2) by simp
  qed
  have lower: "- 5 \<le> nx \<Longrightarrow> lo \<le> v"
  proof -
    assume "- 5 \<le> nx"
    then have "- 6 \<le> nx - 1" by simp
    then have "(10::rat) powi (- 6) \<le> 10 powi (nx - 1)" by (rule powi10_mono)
    moreover have "(10::rat) powi (- 6) = 1 / 10 ^ 6" by (simp add: power_int_minus)
    ultimately show ?thesis using E(1) lo_less by simp
  qed
  from search_digits_exponent[OF bin nx_def, of 1 17] show ?thesis
  proof
    assume "fst (search_digits v nx 1 17) = nx"
    then have "n = nx" using fst_n by simp
    then show ?thesis using upper lower n by simp
  next
    assume "\<exists>k'. 1 \<le> k' \<and> k' < 1 + 17 \<and> fst (search_digits v nx 1 17) = nx + 1
              \<and> valid_digits v (nx + 1) (10 ^ (k' - 1))"
    then obtain k' where k: "1 \<le> k'" "k' < 1 + 17" and n1: "n = nx + 1"
        and valid: "valid_digits v (nx + 1) (10 ^ (k' - 1))"
      using fst_n by auto
    have up: "v < 10 ^ 21" using upper n1 n(2) by simp
    show ?thesis
    proof (cases "- 5 \<le> nx")
      case True
      then show ?thesis using lower up by simp
    next
      case False
      then have nx6: "nx = - 6" using n1 n(1) by simp
      have "k' \<in> set [1..<18]" using k by simp
      then have "(case decimal_fraction (- 5) (10 ^ (k' - 1)) of (a, b) \<Rightarrow> to_double a b)
                   = Fin (4722366482869645 / 2 ^ 72)"
        using one_millionth_candidates by blast
      moreover have "(case decimal_fraction (- 5) (10 ^ (k' - 1)) of (a, b) \<Rightarrow> to_double a b) = Fin v"
        using valid unfolding nx6 valid_digits_def by (simp add: case_prod_beta)
      ultimately have "v = lo" using lo_val by simp
      then show ?thesis using up by simp
    qed
  qed
qed

lemma decimal_notation_iff_magnitude:
  assumes d: "parseNum (Some x) = Fin v" and lo: "to_double 1 (10 ^ 6) = Fin lo"
  shows "decimal_notation (Fin v) \<longleftrightarrow> v = 0 \<or> (lo \<le> \<bar>v\<bar> \<and> \<bar>v\<bar> < 10 ^ 21)"
proof (cases "v = 0")
  case True
  then show ?thesis by (simp add: decimal_notation_def)
next
  case False
  then have bin: "is_binary64 \<bar>v\<bar>" using parseNum_range[OF d] by simp
  obtain n s where ns: "shortest_digits \<bar>v\<bar> = (n, s)" by (cases "shortest_digits \<bar>v\<bar>")
  have dn: "decimal_notation (Fin v) \<longleftrightarrow> - 6 < n \<and> n \<le> 21"
    using False ns by (simp add: decimal_notation_def)
  show ?thesis
  proof
    assume "decimal_notation (Fin v)"
    then have "- 6 < n" "n \<le> 21" using dn by simp_all
    then have "lo \<le> \<bar>v\<bar> \<and> \<bar>v\<bar> < 10 ^ 21" by (rule decimal_digits_magnitude[OF bin lo ns])
    then show "v = 0 \<or> (lo \<le> \<bar>v\<bar> \<and> \<bar>v\<bar> < 10 ^ 21)" ..
  next
    assume "v = 0 \<or> (lo \<le> \<bar>v\<bar> \<and> \<bar>v\<bar> < 10 ^ 21)"
    then have "lo \<le> \<bar>v\<bar>" "\<bar>v\<bar> < 10 ^ 21" using False by simp_all
    then have "- 6 < n \<and> n \<le> 21" using shortest_digits_decimal_number[OF bin lo _ _ ns] by blast
    then show "decimal_notation (Fin v)" using dn by simp
  qed
qed

text \<open>
  Claim C7, amended. For every string \<open>x\<close> such that \<open>parseNum(x)\<close> is zero, or is finite
  with a magnitude from the Number \<open>1e-6\<close> (\<open>lo\<close> below) up to, but not including, \<open>1e21\<close>,
  \<open>parseNum(parseNum(x).toString())\<close> equals \<open>parseNum(x)\<close>. These are the values of
  \<open>parseNum\<close> that \<open>toString()\<close> prints without an exponent.
\<close>

theorem parseNum_toString_decimal:
  assumes d: "parseNum (Some x) = Fin v"
      and lo: "to_double 1 (10 ^ 6) = Fin lo"
      and mag: "v = 0 \<or> (lo \<le> \<bar>v\<bar> \<and> \<bar>v\<bar> < 10 ^ 21)"
  shows "parseNum (Some (Number_toString (parseNum (Some x)))) = parseNum (Some x)"
proof -
  have "decimal_notation (Fin v)"
    using decimal_notation_iff_magnitude[OF d lo] mag by blast
  then have "decimal_notation (parseNum (Some x))" by (simp only: d)
  then show ?thesis by (rule parseNum_toString_decimal_notation)
qed

text \<open>
  The theorem of C7 at a price with a currency sign and a thousands separator, and at
  \<open>0.000001\<close>, the least magnitude it covers.
\<close>

theorem parseNum_toString_decimal_witness:
  "parseNum (Some (Number_toString (parseNum (Some ''$1,234.50'')))) = Fin (2469 / 2)
   \<and> parseNum (Some (Number_toString (parseNum (Some ''0.000001''))))
       = Fin (4722366482869645 / 2 ^ 72)"
proof -
  have v: "parseNum (Some ''$1,234.50'') = Fin (2469 / 2)" by code_simp
  have w: "parseNum (Some ''0.000001'') = Fin (4722366482869645 / 2 ^ 72)" by code_simp
  have lo: "to_double 1 (10 ^ 6) = Fin (4722366482869645 / 2 ^ 72)" by code_simp
  have m1: "(2469 / 2 :: rat) = 0
            \<or> (4722366482869645 / 2 ^ 72 \<le> \<bar>2469 / 2 :: rat\<bar> \<and> \<bar>2469 / 2 :: rat\<bar> < 10 ^ 21)"
    by simp
  have m2: "(4722366482869645 / 2 ^ 72 :: rat) = 0
            \<or> (4722366482869645 / 2 ^ 72 \<le> \<bar>4722366482869645 / 2 ^ 72 :: rat\<bar>
               \<and> \<bar>4722366482869645 / 2 ^ 72 :: rat\<bar> < 10 ^ 21)"
    by simp
  show ?thesis
    using parseNum_toString_decimal[OF v lo m1] parseNum_toString_decimal[OF w lo m2] v w
    by simp
qed

text \<open>
  Claim C7, as stated, fails: \<open>1000000000000000000000\<close> is parsed as \<open>1e21\<close>, which
  \<open>toString()\<close> prints as \<open>1e+21\<close>; without the characters that \<open>parseNum\<close> strips this reads
  \<open>121\<close>.
\<close>

theorem parseNum_toString_counterexample:
  "parseNum (Some ''1000000000000000000000'') = Fin (10 ^ 21)
   \<and> Number_toString (parseNum (Some ''1000000000000000000000'')) = ''1e+21''
   \<and> parseNum (Some (Number_toString (parseNum (Some ''1000000000000000000000'')))) = Fin 121"
  by code_simp


end
